theory Spec2Isabelle
  imports Main "HOL-Library.Word" "HOL-Library.Monad_Syntax"
begin

unbundle bit_operations_syntax

section \<open>Data model\<close>

text \<open>
  The event queue of \<^verbatim>\<open>equeue.c\<close>, embedded for an ILP32 target: \<^verbatim>\<open>int\<close>,
  \<^verbatim>\<open>unsigned\<close>, \<^verbatim>\<open>size_t\<close> and pointers are 32 bits wide. Signed and unsigned values
  share the type \<open>32 word\<close>; the source's signed comparisons are written \<open><s\<close> and
  \<open>\<le>s\<close>, its \<^verbatim>\<open>>>\<close> on an \<^verbatim>\<open>int\<close> is the arithmetic shift \<open>signed_drop_bit\<close>.

  A pointer to an event is the byte offset of its chunk in the buffer (\<open>None\<close> is the
  null pointer), and the buffer is read through the chunk headers that start at these
  offsets. The payload pointer \<^verbatim>\<open>e + 1\<close> that the interface hands out is represented by
  the offset of \<^verbatim>\<open>e\<close> itself: every entry point converts back with \<^verbatim>\<open>p - 1\<close> at once.
  A \<^verbatim>\<open>struct equeue_event **\<close> is a \<open>slot\<close>: the address of one of the link fields.
  Function pointers are opaque numbers; calling one appends to the log \<open>calls\<close>.
  The mutexes and the semaphore are primitives outside this development.
\<close>

type_synonym addr = nat
type_synonym fnptr = nat
type_synonym cint = "32 word"
type_synonym csize = "32 word"

datatype slot = QueueSlot | ChunksSlot | NextSlot addr | SiblingSlot addr

datatype call = Cb fnptr addr | Dtor fnptr addr

text \<open>
  Modelled from the spec: \<^verbatim>\<open>equeue.h\<close> with \<^verbatim>\<open>struct equeue_event\<close> and \<^verbatim>\<open>equeue_t\<close> is not
  among the sources; the fields are those the spec's data model lists and the code uses.
\<close>

record event =
  size_ev :: csize
  id_ev :: cint
  target :: cint
  period :: cint
  cb :: "fnptr option"
  dtor :: "fnptr option"
  "next" :: "addr option"
  sibling :: "addr option"
  ref :: slot

record equeue =
  buffer :: "addr \<Rightarrow> event"
  npw2 :: nat
  chunks :: "addr option"
  slab_size :: csize
  slab_data :: addr
  queue :: "addr option"
  breaks :: cint
  calls :: "call list"

definition upd :: "addr \<Rightarrow> (event \<Rightarrow> event) \<Rightarrow> equeue \<Rightarrow> equeue" where
  "upd a f q = q\<lparr>buffer := (buffer q)(a := f (buffer q a))\<rparr>"

fun slot_get :: "equeue \<Rightarrow> slot \<Rightarrow> addr option" where
  "slot_get q QueueSlot = queue q"
| "slot_get q ChunksSlot = chunks q"
| "slot_get q (NextSlot a) = next (buffer q a)"
| "slot_get q (SiblingSlot a) = sibling (buffer q a)"

fun slot_set :: "slot \<Rightarrow> addr option \<Rightarrow> equeue \<Rightarrow> equeue" where
  "slot_set QueueSlot v q = q\<lparr>queue := v\<rparr>"
| "slot_set ChunksSlot v q = q\<lparr>chunks := v\<rparr>"
| "slot_set (NextSlot a) v q = upd a (\<lambda>e. e\<lparr>next := v\<rparr>) q"
| "slot_set (SiblingSlot a) v q = upd a (\<lambda>e. e\<lparr>sibling := v\<rparr>) q"

section \<open>Creation and destruction\<close>

function npw2_loop :: "32 word \<Rightarrow> nat \<Rightarrow> nat" where
  "npw2_loop s n = (if s = 0 then n else npw2_loop (drop_bit 1 s) (Suc n))"
  by pat_completeness auto
termination
proof (relation "measure (\<lambda>(s, n). unat s)")
  show "wf (measure (\<lambda>(s :: 32 word, n :: nat). unat s))" by simp
next
  fix s :: "32 word" and n :: nat
  assume "s \<noteq> 0"
  then have "0 < unat s" by (simp add: unat_gt_0)
  then have "unat s div 2 < unat s" by simp
  then show "((drop_bit 1 s, Suc n), (s, n)) \<in> measure (\<lambda>(s, n). unat s)"
    by (simp add: drop_bit_eq_div unat_div)
qed

text \<open>
  \<^verbatim>\<open>equeue_create_inplace\<close>; the three primitives it creates are taken to succeed, so the
  function returns 0 and leaves the queue built here over the buffer \<open>buf\<close>.
\<close>

definition equeue_create_inplace :: "(addr \<Rightarrow> event) \<Rightarrow> csize \<Rightarrow> equeue" where
  "equeue_create_inplace buf sz =
     \<lparr>buffer = buf, npw2 = npw2_loop sz 0, chunks = None, slab_size = sz, slab_data = 0,
      queue = None, breaks = 0, calls = []\<rparr>"

text \<open>
  \<^verbatim>\<open>equeue_destroy\<close>: the outer loop follows \<^verbatim>\<open>next\<close> from \<^verbatim>\<open>q->queue\<close>; the inner loop, as
  the source has it, starts again from \<^verbatim>\<open>q->queue\<close> and follows \<^verbatim>\<open>sibling\<close>.
\<close>

partial_function (option) destroy_siblings :: "equeue \<Rightarrow> addr option \<Rightarrow> equeue option" where
  "destroy_siblings q e =
     (case e of None \<Rightarrow> Some q
      | Some a \<Rightarrow>
          destroy_siblings
            (case dtor (buffer q a) of None \<Rightarrow> q
             | Some d \<Rightarrow> q\<lparr>calls := calls q @ [Dtor d a]\<rparr>)
            (sibling (buffer q a)))"

declare destroy_siblings.simps [code]

partial_function (option) destroy_buckets :: "equeue \<Rightarrow> addr option \<Rightarrow> equeue option" where
  "destroy_buckets q es =
     (case es of None \<Rightarrow> Some q
      | Some a \<Rightarrow>
          (case destroy_siblings q (queue q) of None \<Rightarrow> None
           | Some q1 \<Rightarrow> destroy_buckets q1 (next (buffer q1 a))))"

declare destroy_buckets.simps [code]

definition equeue_destroy :: "equeue \<Rightarrow> equeue option" where
  "equeue_destroy q = destroy_buckets q (queue q)"

section \<open>Chunk allocator\<close>

text \<open>
  \<^verbatim>\<open>sizeof(struct equeue_event)\<close> is the parameter \<open>hdr\<close>; \<^verbatim>\<open>sizeof(void*)\<close> is 4.
\<close>

definition mem_size :: "csize \<Rightarrow> csize \<Rightarrow> csize" where
  "mem_size hdr sz = (sz + hdr + (4 - 1)) AND NOT (4 - 1)"

partial_function (option) mem_alloc_walk ::
  "equeue \<Rightarrow> csize \<Rightarrow> slot \<Rightarrow> (equeue \<times> addr option) option" where
  "mem_alloc_walk q sz p =
     (case slot_get q p of None \<Rightarrow> Some (q, None)
      | Some e \<Rightarrow>
          if sz \<le> size_ev (buffer q e) then
            (case sibling (buffer q e) of
               Some s \<Rightarrow>
                 (let q1 = slot_set p (Some s) q
                  in Some (slot_set (NextSlot s) (next (buffer q1 e)) q1, Some e))
             | None \<Rightarrow> Some (slot_set p (next (buffer q e)) q, Some e))
          else mem_alloc_walk q sz (NextSlot e))"

declare mem_alloc_walk.simps [code]

definition equeue_mem_alloc :: "csize \<Rightarrow> equeue \<Rightarrow> csize \<Rightarrow> (equeue \<times> addr option) option" where
  "equeue_mem_alloc hdr q sz0 =
     (let sz = mem_size hdr sz0 in
      case mem_alloc_walk q sz ChunksSlot of None \<Rightarrow> None
      | Some (q1, Some e) \<Rightarrow> Some (q1, Some e)
      | Some (q1, None) \<Rightarrow>
          if sz \<le> slab_size q1 then
            (let e = slab_data q1;
                 q2 = q1\<lparr>slab_data := slab_data q1 + unat sz, slab_size := slab_size q1 - sz\<rparr>
             in Some (upd e (\<lambda>x. x\<lparr>size_ev := sz, id_ev := 1\<rparr>) q2, Some e))
          else Some (q1, None))"

partial_function (option) mem_dealloc_walk :: "equeue \<Rightarrow> csize \<Rightarrow> slot \<Rightarrow> slot option" where
  "mem_dealloc_walk q sz p =
     (case slot_get q p of None \<Rightarrow> Some p
      | Some c \<Rightarrow>
          if size_ev (buffer q c) < sz then mem_dealloc_walk q sz (NextSlot c) else Some p)"

declare mem_dealloc_walk.simps [code]

definition equeue_mem_dealloc :: "equeue \<Rightarrow> addr \<Rightarrow> equeue option" where
  "equeue_mem_dealloc q e =
     (case mem_dealloc_walk q (size_ev (buffer q e)) ChunksSlot of None \<Rightarrow> None
      | Some p \<Rightarrow>
          (let q1 =
             (case slot_get q p of
                Some c \<Rightarrow>
                  if size_ev (buffer q c) = size_ev (buffer q e) then
                    (let qa = upd e (\<lambda>x. x\<lparr>sibling := Some c\<rparr>) q
                     in upd e (\<lambda>x. x\<lparr>next := next (buffer qa c)\<rparr>) qa)
                  else
                    (let qa = upd e (\<lambda>x. x\<lparr>sibling := None\<rparr>) q
                     in upd e (\<lambda>x. x\<lparr>next := slot_get qa p\<rparr>) qa)
              | None \<Rightarrow>
                  (let qa = upd e (\<lambda>x. x\<lparr>sibling := None\<rparr>) q
                   in upd e (\<lambda>x. x\<lparr>next := slot_get qa p\<rparr>) qa))
           in Some (slot_set p (Some e) q1)))"

definition equeue_alloc :: "csize \<Rightarrow> equeue \<Rightarrow> csize \<Rightarrow> (equeue \<times> addr option) option" where
  "equeue_alloc hdr q sz =
     (case equeue_mem_alloc hdr q sz of None \<Rightarrow> None
      | Some (q1, None) \<Rightarrow> Some (q1, None)
      | Some (q1, Some e) \<Rightarrow>
          Some (upd e (\<lambda>x. x\<lparr>target := 0, period := - 1, dtor := None\<rparr>) q1, Some e))"

definition equeue_dealloc :: "equeue \<Rightarrow> addr \<Rightarrow> equeue option" where
  "equeue_dealloc q e =
     equeue_mem_dealloc
       (case dtor (buffer q e) of None \<Rightarrow> q
        | Some d \<Rightarrow> q\<lparr>calls := calls q @ [Dtor d e]\<rparr>) e"

section \<open>Timed queue\<close>

definition equeue_tickdiff :: "32 word \<Rightarrow> 32 word \<Rightarrow> cint" where
  "equeue_tickdiff a b = a - b"

partial_function (option) enqueue_walk :: "equeue \<Rightarrow> cint \<Rightarrow> slot \<Rightarrow> slot option" where
  "enqueue_walk q tg p =
     (case slot_get q p of None \<Rightarrow> Some p
      | Some c \<Rightarrow>
          if equeue_tickdiff (target (buffer q c)) tg <s 0
          then enqueue_walk q tg (NextSlot c) else Some p)"

declare enqueue_walk.simps [code]

text \<open>\<open>now\<close> is the value \<^verbatim>\<open>equeue_tick()\<close> returns inside the call.\<close>

definition equeue_enqueue :: "equeue \<Rightarrow> addr \<Rightarrow> 32 word \<Rightarrow> 32 word \<Rightarrow> equeue option" where
  "equeue_enqueue q e now ms =
     (let q0 = upd e (\<lambda>x. x\<lparr>target := now + ms\<rparr>) q in
      case enqueue_walk q0 (target (buffer q0 e)) QueueSlot of None \<Rightarrow> None
      | Some p \<Rightarrow>
          (let q1 =
             (case slot_get q0 p of
                Some c \<Rightarrow>
                  if target (buffer q0 c) = target (buffer q0 e) then
                    (let qa = upd c (\<lambda>x. x\<lparr>ref := SiblingSlot e\<rparr>) q0;
                         qb = upd e (\<lambda>x. x\<lparr>sibling := Some c\<rparr>) qa;
                         qc = (case next (buffer qb c) of None \<Rightarrow> qb
                               | Some n \<Rightarrow> upd n (\<lambda>x. x\<lparr>ref := NextSlot e\<rparr>) qb)
                     in upd e (\<lambda>x. x\<lparr>next := next (buffer qc c)\<rparr>) qc)
                  else
                    (let qa = upd c (\<lambda>x. x\<lparr>ref := NextSlot e\<rparr>) q0;
                         qb = upd e (\<lambda>x. x\<lparr>next := Some c\<rparr>) qa
                     in upd e (\<lambda>x. x\<lparr>sibling := None\<rparr>) qb)
              | None \<Rightarrow>
                  (let qb = upd e (\<lambda>x. x\<lparr>next := None\<rparr>) q0
                   in upd e (\<lambda>x. x\<lparr>sibling := None\<rparr>) qb))
           in Some (slot_set p (Some e) (upd e (\<lambda>x. x\<lparr>ref := p\<rparr>) q1))))"

definition equeue_unqueue :: "equeue \<Rightarrow> addr \<Rightarrow> equeue" where
  "equeue_unqueue q e =
     (case sibling (buffer q e) of
        Some s \<Rightarrow>
          (let q1 = (case next (buffer q e) of None \<Rightarrow> q
                     | Some n \<Rightarrow> upd n (\<lambda>x. x\<lparr>ref := NextSlot s\<rparr>) q);
               q2 = upd s (\<lambda>x. x\<lparr>next := next (buffer q1 e)\<rparr>) q1;
               q3 = upd s (\<lambda>x. x\<lparr>ref := ref (buffer q2 e)\<rparr>) q2
           in slot_set (ref (buffer q3 e)) (sibling (buffer q3 e)) q3)
      | None \<Rightarrow>
          (let q1 = (case next (buffer q e) of None \<Rightarrow> q
                     | Some n \<Rightarrow> upd n (\<lambda>x. x\<lparr>ref := ref (buffer q e)\<rparr>) q)
           in slot_set (ref (buffer q1 e)) (next (buffer q1 e)) q1))"

text \<open>
  \<^verbatim>\<open>equeue_dequeue\<close>. The inner loop reverses one bucket; the outer loop threads the local
  variables \<^verbatim>\<open>head\<close> and \<^verbatim>\<open>tail\<close>, where \<open>tail = None\<close> stands for \<^verbatim>\<open>&head\<close> and
  \<open>tail = Some a\<close> for \<^verbatim>\<open>&a->next\<close>. The result carries \<^verbatim>\<open>head\<close> and \<^verbatim>\<open>*deadline\<close>.
\<close>

partial_function (option) dequeue_reverse ::
  "equeue \<Rightarrow> addr option \<Rightarrow> addr option \<Rightarrow> (equeue \<times> addr option) option" where
  "dequeue_reverse q e prev =
     (case e of None \<Rightarrow> Some (q, prev)
      | Some a \<Rightarrow>
          (let q1 = upd a (\<lambda>x. x\<lparr>next := prev\<rparr>) q
           in dequeue_reverse q1 (sibling (buffer q1 a)) (Some a)))"

declare dequeue_reverse.simps [code]

partial_function (option) dequeue_loop ::
  "equeue \<Rightarrow> 32 word \<Rightarrow> addr option \<Rightarrow> addr option \<Rightarrow> cint
     \<Rightarrow> (equeue \<times> addr option \<times> cint) option" where
  "dequeue_loop q tg head tail deadline =
     (case queue q of None \<Rightarrow> Some (q, head, deadline)
      | Some es \<Rightarrow>
          (let diff = equeue_tickdiff (target (buffer q es)) tg in
           if 0 <s diff then Some (q, head, diff)
           else
             (case dequeue_reverse (q\<lparr>queue := next (buffer q es)\<rparr>) (Some es) None of
                None \<Rightarrow> None
              | Some (q1, prev) \<Rightarrow>
                  (case tail of
                     None \<Rightarrow> dequeue_loop q1 tg prev (Some es) deadline
                   | Some t \<Rightarrow>
                       dequeue_loop (upd t (\<lambda>x. x\<lparr>next := prev\<rparr>) q1) tg head (Some es)
                         deadline))))"

declare dequeue_loop.simps [code]

definition equeue_dequeue ::
  "equeue \<Rightarrow> 32 word \<Rightarrow> cint \<Rightarrow> (equeue \<times> addr option \<times> cint) option" where
  "equeue_dequeue q now deadline =
     (case dequeue_loop q now None None deadline of None \<Rightarrow> None
      | Some (q1, head, dl) \<Rightarrow>
          Some ((case queue q1 of None \<Rightarrow> q1
                 | Some a \<Rightarrow> upd a (\<lambda>x. x\<lparr>ref := QueueSlot\<rparr>) q1), head, dl))"

section \<open>Identifiers, posting and cancelling\<close>

text \<open>
  The shift count \<^verbatim>\<open>8*sizeof(int)-1 - q->npw2\<close> is unsigned in the source and wraps for
  \<open>npw2 > 31\<close>, where the shift is undefined; the statements about identifiers below are
  for \<open>npw2 < 31\<close>.
\<close>

definition equeue_incid :: "equeue \<Rightarrow> cint \<Rightarrow> cint" where
  "equeue_incid q i =
     (if signed_drop_bit (8 * 4 - 1 - npw2 q) (i + 1) \<noteq> 0 then 1 else i + 1)"

definition equeue_post :: "equeue \<Rightarrow> fnptr option \<Rightarrow> addr \<Rightarrow> 32 word \<Rightarrow> (equeue \<times> cint) option" where
  "equeue_post q f e now =
     (let i = push_bit (npw2 q) (id_ev (buffer q e)) OR of_nat e;
          q1 = upd e (\<lambda>x. x\<lparr>cb := f\<rparr>) q
      in if target (buffer q1 e) <s 0
         then (case equeue_dealloc q1 e of None \<Rightarrow> None | Some q2 \<Rightarrow> Some (q2, i))
         else (case equeue_enqueue q1 e now (target (buffer q1 e)) of None \<Rightarrow> None
               | Some q2 \<Rightarrow> Some (q2, i)))"

definition equeue_cancel :: "equeue \<Rightarrow> cint \<Rightarrow> equeue option" where
  "equeue_cancel q i =
     (let e = unat (i AND (push_bit (npw2 q) 1 - 1));
          q1 = (if id_ev (buffer q e) = signed_drop_bit (npw2 q) (- i)
                then upd e (\<lambda>x. x\<lparr>period := - 1\<rparr>) (upd e (\<lambda>x. x\<lparr>cb := None\<rparr>) q)
                else q)
      in if id_ev (buffer q1 e) \<noteq> signed_drop_bit (npw2 q1) i then Some q1
         else
           (let q2 = equeue_unqueue q1 e;
                q3 = upd e (\<lambda>x. x\<lparr>id_ev := equeue_incid q2 (id_ev (buffer q2 e))\<rparr>) q2
            in equeue_dealloc q3 e))"

definition equeue_break :: "equeue \<Rightarrow> equeue" where
  "equeue_break q = q\<lparr>breaks := breaks q + 1\<rparr>"

section \<open>Dispatcher\<close>

text \<open>
  One round of \<^verbatim>\<open>equeue_dispatch\<close> in three steps: \<open>dispatch_collect\<close> drains the due events
  and marks them in flight; \<open>dispatch_fire\<close> calls the callback of one event, whose body
  is user code (the log entry stands for it, and anything it does to the queue happens
  between the two steps); \<open>dispatch_retire\<close> re-arms or retires that event. Waiting on the
  semaphore and the break check are not part of this development.
\<close>

partial_function (option) dispatch_mark :: "equeue \<Rightarrow> addr option \<Rightarrow> equeue option" where
  "dispatch_mark q e =
     (case e of None \<Rightarrow> Some q
      | Some a \<Rightarrow>
          (let q1 = upd a (\<lambda>x. x\<lparr>id_ev := - id_ev (buffer q a)\<rparr>) q
           in dispatch_mark q1 (next (buffer q1 a))))"

declare dispatch_mark.simps [code]

definition dispatch_collect :: "equeue \<Rightarrow> 32 word \<Rightarrow> (equeue \<times> addr option \<times> cint) option" where
  "dispatch_collect q now =
     (case queue q of None \<Rightarrow> Some (q, None, - 1)
      | Some _ \<Rightarrow>
          (case equeue_dequeue q now (- 1) of None \<Rightarrow> None
           | Some (q1, es, dl) \<Rightarrow>
               (case dispatch_mark q1 es of None \<Rightarrow> None
                | Some q2 \<Rightarrow> Some (q2, es, dl))))"

definition dispatch_fire :: "equeue \<Rightarrow> addr \<Rightarrow> equeue" where
  "dispatch_fire q e =
     (case cb (buffer q e) of None \<Rightarrow> q
      | Some f \<Rightarrow> q\<lparr>calls := calls q @ [Cb f e]\<rparr>)"

definition dispatch_retire :: "equeue \<Rightarrow> addr \<Rightarrow> 32 word \<Rightarrow> equeue option" where
  "dispatch_retire q e now =
     (if 0 \<le>s period (buffer q e) then
        (let q1 = upd e (\<lambda>x. x\<lparr>id_ev := - id_ev (buffer q e)\<rparr>) q
         in equeue_enqueue q1 e now (period (buffer q1 e)))
      else
        (let q1 = upd e (\<lambda>x. x\<lparr>id_ev := equeue_incid q (- id_ev (buffer q e))\<rparr>) q
         in equeue_dealloc q1 e))"

section \<open>Event configuration\<close>

definition equeue_event_delay :: "equeue \<Rightarrow> addr \<Rightarrow> cint \<Rightarrow> equeue" where
  "equeue_event_delay q e ms = upd e (\<lambda>x. x\<lparr>target := ms\<rparr>) q"

definition equeue_event_period :: "equeue \<Rightarrow> addr \<Rightarrow> cint \<Rightarrow> equeue" where
  "equeue_event_period q e ms = upd e (\<lambda>x. x\<lparr>period := ms\<rparr>) q"

definition equeue_event_dtor :: "equeue \<Rightarrow> addr \<Rightarrow> fnptr option \<Rightarrow> equeue" where
  "equeue_event_dtor q e d = upd e (\<lambda>x. x\<lparr>dtor := d\<rparr>) q"

section \<open>Abstraction of the linked structures\<close>

text \<open>
  The queue and the free list have the same shape: a chain of bucket heads linked by
  \<open>next\<close>, each head followed by the other members of its bucket through \<open>sibling\<close>.
  \<open>sib_chain h p xs\<close>: following \<open>sibling\<close> from the pointer \<open>p\<close> visits exactly \<open>xs\<close> and
  ends at null; \<open>next_chain\<close> is the same for \<open>next\<close>.
\<close>

fun sib_chain :: "(addr \<Rightarrow> event) \<Rightarrow> addr option \<Rightarrow> addr list \<Rightarrow> bool" where
  "sib_chain h p [] \<longleftrightarrow> p = None"
| "sib_chain h p (x # xs) \<longleftrightarrow> p = Some x \<and> sib_chain h (sibling (h x)) xs"

fun next_chain :: "(addr \<Rightarrow> event) \<Rightarrow> addr option \<Rightarrow> addr list \<Rightarrow> bool" where
  "next_chain h p [] \<longleftrightarrow> p = None"
| "next_chain h p (x # xs) \<longleftrightarrow> p = Some x \<and> next_chain h (next (h x)) xs"

text \<open>
  \<open>bucket_path h p bs r\<close>: from \<open>p\<close> the bucket heads are the heads of the lists \<open>bs\<close>,
  each list is the sibling chain of its head, and the \<open>next\<close> of the last head is \<open>r\<close>.
\<close>

fun bucket_path ::
  "(addr \<Rightarrow> event) \<Rightarrow> addr option \<Rightarrow> addr list list \<Rightarrow> addr option \<Rightarrow> bool" where
  "bucket_path h p [] r \<longleftrightarrow> p = r"
| "bucket_path h p ([] # bs) r \<longleftrightarrow> False"
| "bucket_path h p ((x # xs) # bs) r \<longleftrightarrow>
     p = Some x \<and> sib_chain h (sibling (h x)) xs \<and> bucket_path h (next (h x)) bs r"

text \<open>
  \<open>buckets h p bs\<close>: the bucket structure from \<open>p\<close> ends at null and no event occurs
  twice in it.
\<close>

definition buckets :: "(addr \<Rightarrow> event) \<Rightarrow> addr option \<Rightarrow> addr list list \<Rightarrow> bool" where
  "buckets h p bs \<longleftrightarrow> bucket_path h p bs None \<and> distinct (concat bs)"

text \<open>
  Two headers that differ at most in their link fields.
\<close>

definition same_data :: "event \<Rightarrow> event \<Rightarrow> bool" where
  "same_data x y \<longleftrightarrow> size_ev x = size_ev y \<and> id_ev x = id_ev y \<and> target x = target y \<and>
     period x = period y \<and> cb x = cb y \<and> dtor x = dtor y"

text \<open>
  Two queue states that differ at most in \<open>queue\<close> and in \<open>next\<close> fields.
\<close>

definition only_next :: "equeue \<Rightarrow> equeue \<Rightarrow> bool" where
  "only_next q' q \<longleftrightarrow>
     (\<forall>a. buffer q' a = (buffer q a)\<lparr>next := next (buffer q' a)\<rparr>) \<and>
     chunks q' = chunks q \<and> calls q' = calls q \<and> npw2 q' = npw2 q \<and>
     slab_size q' = slab_size q \<and> slab_data q' = slab_data q \<and> breaks q' = breaks q"

subsection \<open>The free list\<close>

text \<open>
  The test of the walk in \<^verbatim>\<open>equeue_mem_dealloc\<close>, on a bucket.
\<close>

definition smaller :: "(addr \<Rightarrow> event) \<Rightarrow> csize \<Rightarrow> addr list \<Rightarrow> bool" where
  "smaller h sz b \<longleftrightarrow> size_ev (h (hd b)) < sz"

text \<open>
  The free list after releasing \<open>e\<close>: buckets of smaller chunks are passed over; \<open>e\<close>
  becomes the head of the bucket of its size, or a new bucket in front of the first
  larger one.
\<close>

fun put_free :: "(addr \<Rightarrow> event) \<Rightarrow> addr \<Rightarrow> addr list list \<Rightarrow> addr list list" where
  "put_free h e [] = [[e]]"
| "put_free h e (b # bs) =
     (if size_ev (h (hd b)) < size_ev (h e) then b # put_free h e bs
      else if size_ev (h (hd b)) = size_ev (h e) then (e # b) # bs
      else [e] # b # bs)"

text \<open>
  The test of the walk in \<^verbatim>\<open>equeue_mem_alloc\<close>, on a bucket, and its negation.
\<close>

definition fits :: "(addr \<Rightarrow> event) \<Rightarrow> csize \<Rightarrow> addr list \<Rightarrow> bool" where
  "fits h sz b \<longleftrightarrow> sz \<le> size_ev (h (hd b))"

definition too_small :: "(addr \<Rightarrow> event) \<Rightarrow> csize \<Rightarrow> addr list \<Rightarrow> bool" where
  "too_small h sz b \<longleftrightarrow> \<not> sz \<le> size_ev (h (hd b))"

text \<open>
  The free list after taking the head of the first bucket whose chunks are large enough:
  the rest of that bucket stays in its place, or the bucket disappears.
\<close>

fun take_fit :: "(addr \<Rightarrow> event) \<Rightarrow> csize \<Rightarrow> addr list list \<Rightarrow> addr list list" where
  "take_fit h sz [] = []"
| "take_fit h sz (b # bs) =
     (if sz \<le> size_ev (h (hd b)) then (if tl b = [] then bs else tl b # bs)
      else b # take_fit h sz bs)"

subsection \<open>The timed queue\<close>

text \<open>
  The test of the walk in \<^verbatim>\<open>equeue_enqueue\<close>, on a bucket.
\<close>

definition earlier :: "(addr \<Rightarrow> event) \<Rightarrow> cint \<Rightarrow> addr list \<Rightarrow> bool" where
  "earlier h tg b \<longleftrightarrow> equeue_tickdiff (target (h (hd b))) tg <s 0"

text \<open>
  The queue after inserting \<open>e\<close> with deadline \<open>tg\<close>: buckets the modular comparison
  puts before \<open>tg\<close> are passed over; \<open>e\<close> becomes the head (newest member) of the bucket
  with that deadline, or a new bucket in front of the first later one.
\<close>

fun ins_bucket :: "(addr \<Rightarrow> event) \<Rightarrow> addr \<Rightarrow> cint \<Rightarrow> addr list list \<Rightarrow> addr list list" where
  "ins_bucket h e tg [] = [[e]]"
| "ins_bucket h e tg (b # bs) =
     (if equeue_tickdiff (target (h (hd b))) tg <s 0 then b # ins_bucket h e tg bs
      else if target (h (hd b)) = tg then (e # b) # bs
      else [e] # b # bs)"

text \<open>
  A bucket is due at tick \<open>now\<close> when its head's deadline is not after \<open>now\<close>.
\<close>

definition due :: "(addr \<Rightarrow> event) \<Rightarrow> 32 word \<Rightarrow> addr list \<Rightarrow> bool" where
  "due h now b \<longleftrightarrow> \<not> 0 <s equeue_tickdiff (target (h (hd b))) now"

text \<open>
  Every member of the bucket has the deadline of the head.
\<close>

definition uniform :: "(addr \<Rightarrow> event) \<Rightarrow> addr list \<Rightarrow> bool" where
  "uniform h b \<longleftrightarrow> list_all (\<lambda>x. target (h x) = target (h (hd b))) b"

text \<open>
  The members of every bucket share the head's deadline, and every bucket head precedes
  the next one under the modular comparison.
\<close>

fun queue_sorted :: "(addr \<Rightarrow> event) \<Rightarrow> addr list list \<Rightarrow> bool" where
  "queue_sorted h [] \<longleftrightarrow> True"
| "queue_sorted h [b] \<longleftrightarrow> uniform h b"
| "queue_sorted h (b # c # bs) \<longleftrightarrow>
     uniform h b \<and> equeue_tickdiff (target (h (hd b))) (target (h (hd c))) <s 0 \<and>
     queue_sorted h (c # bs)"

text \<open>
  No event of the list has a deadline after that of its successor.
\<close>

fun deadline_order :: "(addr \<Rightarrow> event) \<Rightarrow> addr list \<Rightarrow> bool" where
  "deadline_order h [] \<longleftrightarrow> True"
| "deadline_order h [x] \<longleftrightarrow> True"
| "deadline_order h (x # y # xs) \<longleftrightarrow>
     equeue_tickdiff (target (h x)) (target (h y)) \<le>s 0 \<and> deadline_order h (y # xs)"

section \<open>Generations\<close>


text \<open>The back-pointer of an event names a link slot that holds the event.\<close>

definition ref_ok :: "equeue \<Rightarrow> addr \<Rightarrow> bool" where
  "ref_ok q e \<longleftrightarrow> slot_get q (ref (buffer q e)) = Some e"

section \<open>Concrete runs\<close>

text \<open>
  A queue over a 128-byte buffer, with a 36-byte event header (nine 4-byte fields), and
  sequences of interface calls on it. Every run posts at tick 0.
\<close>

definition zero_event :: event where
  "zero_event = \<lparr>size_ev = 0, id_ev = 0, target = 0, period = 0, cb = None, dtor = None,
     next = None, sibling = None, ref = QueueSlot\<rparr>"

definition fresh_queue :: equeue where
  "fresh_queue = equeue_create_inplace (\<lambda>_. zero_event) 128"

definition alloc_ev :: "equeue \<Rightarrow> (equeue \<times> addr) option" where
  "alloc_ev q = (case equeue_alloc 36 q 0 of Some (q', Some e) \<Rightarrow> Some (q', e) | _ \<Rightarrow> None)"

text \<open>Two events with destructors 7 and 8, posted with delays 10 and 20.\<close>

definition two_buckets :: "equeue option" where
  "two_buckets = do {
     (q, a) \<leftarrow> alloc_ev fresh_queue;
     (q, b) \<leftarrow> alloc_ev q;
     (q, ha) \<leftarrow> equeue_post (equeue_event_delay (equeue_event_dtor q a (Some 7)) a 10) (Some 1) a 0;
     (q, hb) \<leftarrow> equeue_post (equeue_event_delay (equeue_event_dtor q b (Some 8)) b 20) (Some 2) b 0;
     Some q }"

text \<open>
  The second chunk (offset 36) posted as a periodic event, drained at tick 10 and fired:
  the state in which its callback runs, with the handle \<open>post\<close> returned for it.
\<close>

definition in_flight :: "(equeue \<times> cint) option" where
  "in_flight = do {
     (q, a) \<leftarrow> alloc_ev fresh_queue;
     (q, b) \<leftarrow> alloc_ev q;
     (q, hb) \<leftarrow> equeue_post (equeue_event_period (equeue_event_delay q b 10) b 10) (Some 2) b 0;
     (q, es, dl) \<leftarrow> dispatch_collect q 10;
     Some (dispatch_fire q b, hb) }"

text \<open>
  The second chunk posted (handle \<open>h1\<close>), cancelled, allocated again, posted again
  (handle \<open>h2\<close>) and drained: the new occupant is in flight while \<open>h1\<close> is stale.
\<close>

definition reused_in_flight :: "(equeue \<times> cint \<times> cint) option" where
  "reused_in_flight = do {
     (q, a) \<leftarrow> alloc_ev fresh_queue;
     (q, b) \<leftarrow> alloc_ev q;
     (q, h1) \<leftarrow> equeue_post (equeue_event_delay q b 10) (Some 2) b 0;
     q \<leftarrow> equeue_cancel q h1;
     (q, c) \<leftarrow> alloc_ev q;
     (q, h2) \<leftarrow> equeue_post (equeue_event_delay q c 10) (Some 3) c 0;
     (q, es, dl) \<leftarrow> dispatch_collect q 10;
     Some (q, h1, h2) }"

text \<open>
  Three events: \<open>a\<close> (offset 0) posted with delay 50, \<open>c\<close> (offset 72) with delay 100,
  then \<open>b\<close> (offset 36) with delay 50, which joins the bucket of \<open>a\<close> as its new head.
\<close>

definition three_posted :: "(equeue \<times> cint \<times> cint \<times> cint) option" where
  "three_posted = do {
     (q, a) \<leftarrow> alloc_ev fresh_queue;
     (q, b) \<leftarrow> alloc_ev q;
     (q, c) \<leftarrow> alloc_ev q;
     (q, ha) \<leftarrow> equeue_post (equeue_event_delay q a 50) (Some 1) a 0;
     (q, hc) \<leftarrow> equeue_post (equeue_event_delay q c 100) (Some 3) c 0;
     (q, hb) \<leftarrow> equeue_post (equeue_event_delay q b 50) (Some 2) b 0;
     Some (q, ha, hb, hc) }"

text \<open>One event allocated, configured, released and allocated again.\<close>

definition reused_chunk :: "equeue option" where
  "reused_chunk = do {
     (q, a) \<leftarrow> alloc_ev fresh_queue;
     equeue_dealloc
       (equeue_event_dtor (equeue_event_period (equeue_event_delay q a 50) a 7) a (Some 9)) a }"



text \<open>
  Three events allocated; \<open>c\<close> (offset 72) released again, \<open>a\<close> (offset 0) posted with
  delay 100, \<open>b\<close> (offset 36) posted with delay 10 and period 10 and drained at tick 10:
  \<open>b\<close> is in flight while \<open>a\<close> is queued and \<open>c\<close> is free.
\<close>

definition busy_in_flight :: "equeue option" where
  "busy_in_flight = do {
     (q, a) \<leftarrow> alloc_ev fresh_queue;
     (q, b) \<leftarrow> alloc_ev q;
     (q, c) \<leftarrow> alloc_ev q;
     q \<leftarrow> equeue_dealloc q c;
     (q, ha) \<leftarrow> equeue_post (equeue_event_delay q a 100) (Some 1) a 0;
     (q, hb) \<leftarrow> equeue_post (equeue_event_period (equeue_event_delay q b 10) b 10) (Some 2) b 0;
     (q, es, dl) \<leftarrow> dispatch_collect q 10;
     Some q }"

text \<open>
  A periodic event (delay 10, period 10) posted with a null callback and drained at
  tick 10: the state in which the dispatcher fires and retires it.
\<close>

definition null_callback_in_flight :: "equeue option" where
  "null_callback_in_flight = do {
     (q, a) \<leftarrow> alloc_ev fresh_queue;
     (q, h) \<leftarrow> equeue_post (equeue_event_period (equeue_event_delay q a 10) a 10) None a 0;
     (q, es, dl) \<leftarrow> dispatch_collect q 10;
     Some q }"

text \<open>
  Three events allocated; \<open>a\<close> (offset 0) posted with delay 50 and \<open>c\<close> (offset 72) with
  delay 100; \<open>b\<close> (offset 36) is not posted yet.
\<close>

definition two_posted :: "equeue option" where
  "two_posted = do {
     (q, a) \<leftarrow> alloc_ev fresh_queue;
     (q, b) \<leftarrow> alloc_ev q;
     (q, c) \<leftarrow> alloc_ev q;
     (q, ha) \<leftarrow> equeue_post (equeue_event_delay q a 50) (Some 1) a 0;
     (q, hc) \<leftarrow> equeue_post (equeue_event_delay q c 100) (Some 3) c 0;
     Some q }"

text \<open>Two events of the same size allocated and released: a free list of one bucket.\<close>

definition two_freed :: "equeue option" where
  "two_freed = do {
     (q, a) \<leftarrow> alloc_ev fresh_queue;
     (q, b) \<leftarrow> alloc_ev q;
     q \<leftarrow> equeue_dealloc q a;
     equeue_dealloc q b }"

section \<open>Successful allocation resets the header\<close>

text \<open>
  C10: every successful \<^verbatim>\<open>equeue_alloc\<close> returns an event whose header has target 0,
  period -1 and no destructor, whatever the chunk held before.
\<close>

theorem alloc_defaults:
  assumes "equeue_alloc hdr q sz = Some (q', Some e)"
  shows "target (buffer q' e) = 0 \<and> period (buffer q' e) = - 1 \<and> dtor (buffer q' e) = None"
  using assms
  by (auto simp: equeue_alloc_def upd_def split: option.splits prod.splits)

lemma option_case_SomeE:
  assumes "case x of None \<Rightarrow> False | Some y \<Rightarrow> P y"
  obtains y where "x = Some y" and "P y"
  using assms by (cases x) auto

theorem alloc_defaults_witness:
  "case reused_chunk of None \<Rightarrow> False
   | Some q \<Rightarrow>
       target (buffer q 0) = 50 \<and> period (buffer q 0) = 7 \<and> dtor (buffer q 0) = Some 9 \<and>
       (case equeue_alloc 36 q 0 of None \<Rightarrow> False
        | Some (q', e) \<Rightarrow>
            e = Some 0 \<and> target (buffer q' 0) = 0 \<and> period (buffer q' 0) = - 1 \<and>
            dtor (buffer q' 0) = None)"
proof -
  have "case reused_chunk of None \<Rightarrow> False
     | Some q \<Rightarrow>
       target (buffer q 0) = 50 \<and> period (buffer q 0) = 7 \<and> dtor (buffer q 0) = Some 9 \<and>
       (case equeue_alloc 36 q 0 of None \<Rightarrow> False | Some (q', e) \<Rightarrow> e = Some 0)"
    by code_simp
  then obtain q where q: "reused_chunk = Some q"
    and old: "target (buffer q 0) = 50 \<and> period (buffer q 0) = 7 \<and> dtor (buffer q 0) = Some 9"
    and a: "case equeue_alloc 36 q 0 of None \<Rightarrow> False | Some (q', e) \<Rightarrow> e = Some 0"
    by (auto elim!: option_case_SomeE)
  from a obtain q' where q': "equeue_alloc 36 q 0 = Some (q', Some 0)"
    by (auto elim!: option_case_SomeE)
  from alloc_defaults [OF q'] show ?thesis
    unfolding q using old q' by simp
qed

section \<open>Handles are never zero\<close>









section \<open>Runs on which the code departs from its intent\<close>

text \<open>
  C1: in the run \<open>in_flight\<close> the chunk at offset 36 is in flight with generation 1 (stored
  id -1) and \<open>h\<close> is the handle \<^verbatim>\<open>equeue_post\<close> returned for it, packing generation 1 and
  offset 36. \<^verbatim>\<open>equeue_cancel\<close> on \<open>h\<close> leaves the callback and the period as they were:
  \<^verbatim>\<open>-id >> q->npw2\<close> is \<open>(-h) >> npw2 = -2\<close>, not -1, for a handle with a non-zero offset.
\<close>

theorem cancel_in_flight_missed:
  "case in_flight of None \<Rightarrow> False
   | Some (q, h) \<Rightarrow>
       h = push_bit (npw2 q) 1 OR 36 \<and> id_ev (buffer q 36) = - 1 \<and>
       signed_drop_bit (npw2 q) (- h) = - 2 \<and>
       cb (buffer q 36) = Some 2 \<and> period (buffer q 36) = 10 \<and>
       (case equeue_cancel q h of None \<Rightarrow> False
        | Some q' \<Rightarrow> cb (buffer q' 36) = Some 2 \<and> period (buffer q' 36) = 10)"
  by code_simp

text \<open>
  C2: in the run \<open>two_buckets\<close> the queue holds the event at offset 0 (destructor 7) and,
  in the next bucket, the event at offset 36 (destructor 8). \<^verbatim>\<open>equeue_destroy\<close> calls
  destructor 7 on the first event twice and destructor 8 never.
\<close>

theorem destroy_repeats_first_bucket:
  "case two_buckets of None \<Rightarrow> False
   | Some q \<Rightarrow>
       queue q = Some 0 \<and> next (buffer q 0) = Some 36 \<and> next (buffer q 36) = None \<and>
       dtor (buffer q 0) = Some 7 \<and> dtor (buffer q 36) = Some 8 \<and> calls q = [] \<and>
       (case equeue_destroy q of None \<Rightarrow> False
        | Some q' \<Rightarrow> calls q' = [Dtor 7 0, Dtor 7 0])"
  by code_simp

text \<open>
  C6: in the run \<open>reused_in_flight\<close> the handle \<open>h1\<close> (generation 1, offset 36) is stale: the
  chunk at offset 36 has a new occupant with handle \<open>h2\<close> (generation 2), in flight with
  stored id -2, which is neither 1 nor -1. \<^verbatim>\<open>equeue_cancel\<close> on \<open>h1\<close> clears the callback of
  the new occupant.
\<close>

theorem cancel_stale_hits_in_flight:
  "case reused_in_flight of None \<Rightarrow> False
   | Some (q, h1, h2) \<Rightarrow>
       h1 = push_bit (npw2 q) 1 OR 36 \<and> h2 = push_bit (npw2 q) 2 OR 36 \<and>
       unat (h1 AND (push_bit (npw2 q) 1 - 1)) = 36 \<and> signed_drop_bit (npw2 q) h1 = 1 \<and>
       id_ev (buffer q 36) = - 2 \<and> cb (buffer q 36) = Some 3 \<and>
       (case equeue_cancel q h1 of None \<Rightarrow> False
        | Some q' \<Rightarrow> cb (buffer q' 36) = None \<and> period (buffer q' 36) = - 1)"
  by code_simp

text \<open>
  C7: in the run \<open>three_posted\<close> the queue is the bucket of \<open>b\<close> (offset 36) with sibling \<open>a\<close>
  (offset 0), followed by the bucket of \<open>c\<close> (offset 72); every back-pointer is right, and
  \<open>a\<close> still carries \<open>next = c\<close> from the time it was a bucket head. Cancelling \<open>a\<close> unqueues
  it through that stale \<open>next\<close>: \<open>c\<close> becomes the sibling of \<open>b\<close> while it still is its
  \<open>next\<close>, and its back-pointer names the sibling slot. Cancelling \<open>c\<close> then clears only
  the sibling slot: \<open>c\<close> is on the free list and still linked as the \<open>next\<close> of the queue
  head, and its back-pointer names a slot that holds null.
\<close>

theorem unqueue_breaks_back_pointers:
  "case three_posted of None \<Rightarrow> False
   | Some (q, ha, hb, hc) \<Rightarrow>
       queue q = Some 36 \<and> sibling (buffer q 36) = Some 0 \<and> sibling (buffer q 0) = None \<and>
       next (buffer q 36) = Some 72 \<and> next (buffer q 72) = None \<and>
       sibling (buffer q 72) = None \<and> next (buffer q 0) = Some 72 \<and>
       ref_ok q 0 \<and> ref_ok q 36 \<and> ref_ok q 72 \<and>
       ref (buffer (equeue_unqueue q 0) 72) = SiblingSlot 36 \<and>
       next (buffer (equeue_unqueue q 0) 36) = Some 72 \<and>
       sibling (buffer (equeue_unqueue q 0) 36) = Some 72 \<and>
       (case equeue_cancel q ha of None \<Rightarrow> False
        | Some q' \<Rightarrow>
            queue q' = Some 36 \<and> sibling (buffer q' 36) = Some 72 \<and>
            next (buffer q' 36) = Some 72 \<and> ref (buffer q' 72) = SiblingSlot 36 \<and>
            (case equeue_cancel q' hc of None \<Rightarrow> False
             | Some q'' \<Rightarrow>
                 queue q'' = Some 36 \<and> next (buffer q'' 36) = Some 72 \<and>
                 sibling (buffer q'' 36) = None \<and> chunks q'' = Some 72 \<and>
                 \<not> ref_ok q'' 72))"
  by code_simp

section \<open>Framing and splicing\<close>

lemma sib_chain_cong:
  "(\<And>x. x \<in> set xs \<Longrightarrow> sibling (h' x) = sibling (h x)) \<Longrightarrow> sib_chain h' p xs = sib_chain h p xs"
  by (induction xs arbitrary: p) auto

lemma bucket_path_nonempty: "bucket_path h p bs r \<Longrightarrow> [] \<notin> set bs"
  by (induction h p bs r rule: bucket_path.induct) auto

lemma bucket_path_upd:
  assumes "bucket_path h p bs r"
    and "\<And>x. x \<in> set (concat bs) \<Longrightarrow> sibling (h' x) = sibling (h x)"
    and "\<And>b. b \<in> set (butlast bs) \<Longrightarrow> next (h' (hd b)) = next (h (hd b))"
    and "bs \<noteq> [] \<Longrightarrow> next (h' (hd (last bs))) = r'"
    and "bs = [] \<Longrightarrow> r' = r"
  shows "bucket_path h' p bs r'"
  using assms
proof (induction h p bs r rule: bucket_path.induct)
  case (1 h p r)
  then show ?case by simp
next
  case (2 h p bs r)
  then show ?case by simp
next
  case (3 h p x xs bs r)
  have s: "sib_chain h' (sibling (h' x)) xs"
    using 3(2) 3(3) sib_chain_cong [of xs h' h "sibling (h x)"] by simp
  show ?case
  proof (cases "bs = []")
    case True
    then show ?thesis using 3 s by simp
  next
    case False
    have "bucket_path h' (next (h x)) bs r'"
      using 3 False by (intro "3.IH") auto
    moreover have "next (h' x) = next (h x)" using 3(4) [of "x # xs"] False by simp
    ultimately show ?thesis using 3(2) s by simp
  qed
qed

lemma bucket_path_cong:
  assumes "bucket_path h p bs r"
    and "\<And>x. x \<in> set (concat bs) \<Longrightarrow> sibling (h' x) = sibling (h x)"
    and "\<And>b. b \<in> set bs \<Longrightarrow> next (h' (hd b)) = next (h (hd b))"
  shows "bucket_path h' p bs r"
proof (cases "bs = []")
  case True
  then show ?thesis using assms(1) by simp
next
  case False
  have "next (h (hd (last bs))) = r" using assms(1) False
    by (induction h p bs r rule: bucket_path.induct) (auto split: if_splits)
  then show ?thesis
    using assms False by (intro bucket_path_upd [OF assms(1)]) (auto dest: in_set_butlastD)
qed

lemma bucket_path_append:
  "bucket_path h p (as @ bs) r \<longleftrightarrow> (\<exists>m. bucket_path h p as m \<and> bucket_path h m bs r)"
  by (induction h p as m\<equiv>"None :: addr option" arbitrary: rule: bucket_path.induct) auto

lemma buffer_upd [simp]: "buffer (upd a f q) = (buffer q)(a := f (buffer q a))"
  and queue_upd [simp]: "queue (upd a f q) = queue q"
  and chunks_upd [simp]: "chunks (upd a f q) = chunks q"
  and calls_upd [simp]: "calls (upd a f q) = calls q"
  and npw2_upd [simp]: "npw2 (upd a f q) = npw2 q"
  and slab_size_upd [simp]: "slab_size (upd a f q) = slab_size q"
  and slab_data_upd [simp]: "slab_data (upd a f q) = slab_data q"
  and breaks_upd [simp]: "breaks (upd a f q) = breaks q"
  by (simp_all add: upd_def)

section \<open>Releasing a chunk\<close>

lemma mem_dealloc_walk_path:
  assumes "bucket_path (buffer q) (slot_get q p) cs None"
  shows "\<exists>p'. mem_dealloc_walk q sz p = Some p' \<and>
     bucket_path (buffer q) (slot_get q p) (takeWhile (smaller (buffer q) sz) cs) (slot_get q p') \<and>
     bucket_path (buffer q) (slot_get q p') (dropWhile (smaller (buffer q) sz) cs) None \<and>
     p' = (if takeWhile (smaller (buffer q) sz) cs = [] then p
           else NextSlot (hd (last (takeWhile (smaller (buffer q) sz) cs))))"
  using assms
proof (induction cs arbitrary: p)
  case Nil
  then show ?case by (subst mem_dealloc_walk.simps) simp
next
  case (Cons b cs)
  from Cons.prems obtain x xs where b: "b = x # xs" by (cases b) auto
  with Cons.prems have p: "slot_get q p = Some x"
    and s: "sib_chain (buffer q) (sibling (buffer q x)) xs"
    and t: "bucket_path (buffer q) (slot_get q (NextSlot x)) cs None" by auto
  show ?case
  proof (cases "smaller (buffer q) sz b")
    case True
    from Cons.IH [OF t] obtain p' where
      w: "mem_dealloc_walk q sz (NextSlot x) = Some p'"
      and a: "bucket_path (buffer q) (slot_get q (NextSlot x))
           (takeWhile (smaller (buffer q) sz) cs) (slot_get q p')"
      and d: "bucket_path (buffer q) (slot_get q p') (dropWhile (smaller (buffer q) sz) cs) None"
      and e: "p' = (if takeWhile (smaller (buffer q) sz) cs = [] then NextSlot x
           else NextSlot (hd (last (takeWhile (smaller (buffer q) sz) cs))))" by blast
    have "mem_dealloc_walk q sz p = Some p'"
      using True w p b by (subst mem_dealloc_walk.simps) (simp add: smaller_def)
    then show ?thesis using True a d e p s b by auto
  next
    case False
    have "mem_dealloc_walk q sz p = Some p"
      using False p b by (subst mem_dealloc_walk.simps) (simp add: smaller_def)
    then show ?thesis using False Cons.prems by simp
  qed
qed

lemma put_free_split:
  "put_free h e cs = takeWhile (smaller h (size_ev (h e))) cs @
     (case dropWhile (smaller h (size_ev (h e))) cs of [] \<Rightarrow> [[e]]
      | b # bs \<Rightarrow> if size_ev (h (hd b)) = size_ev (h e) then (e # b) # bs else [e] # b # bs)"
  by (induction cs) (auto simp: smaller_def)

lemma bucket_path_head:
  "bucket_path h p (b # bs) r \<Longrightarrow> p = Some (hd b)"
  by (cases b) auto

lemma hd_in_concat:
  assumes "b \<in> set bs" and "b \<noteq> []"
  shows "hd b \<in> set (concat bs)"
proof -
  have "hd b \<in> set b" using assms(2) by simp
  then show ?thesis using assms(1) by auto
qed

lemma hd_last_in_concat: "bs \<noteq> [] \<Longrightarrow> [] \<notin> set bs \<Longrightarrow> hd (last bs) \<in> set (concat bs)"
  by (induction bs) (auto split: if_splits)

lemma butlast_heads_differ:
  assumes "distinct (concat pre)" and "[] \<notin> set pre" and "b \<in> set (butlast pre)"
  shows "hd b \<noteq> hd (last pre)"
proof -
  have ne: "pre \<noteq> []" using assms(3) by auto
  then have ys: "pre = butlast pre @ [last pre]" by simp
  have "concat pre = concat (butlast pre) @ last pre"
    by (subst ys) simp
  then have "distinct (concat (butlast pre) @ last pre)" using assms(1) by simp
  then have disj: "set (concat (butlast pre)) \<inter> set (last pre) = {}" by simp
  have "b \<noteq> []" using assms(2,3) by (metis in_set_butlastD)
  then have "hd b \<in> set (concat (butlast pre))" using assms(3) by (intro hd_in_concat)
  moreover have "last pre \<noteq> []" using assms(2) ne by (metis last_in_set)
  then have "hd (last pre) \<in> set (last pre)" by simp
  ultimately show ?thesis using disj by (metis disjoint_iff)
qed

text \<open>Linking a new event \<open>e\<close> in front of the bucket at which a walk stopped.\<close>

lemma splice_path:
  assumes a: "bucket_path h p0 pre m" and d: "bucket_path h m post None"
    and dist: "distinct (concat (pre @ post))" and E: "e \<notin> set (concat (pre @ post))"
    and sib: "\<And>x. x \<noteq> e \<Longrightarrow> sibling (h' x) = sibling (h x)"
    and nxt: "\<And>x. x \<noteq> e \<Longrightarrow> (pre \<noteq> [] \<Longrightarrow> x \<noteq> hd (last pre)) \<Longrightarrow> next (h' x) = next (h x)"
    and lst: "pre \<noteq> [] \<Longrightarrow> next (h' (hd (last pre))) = Some e"
    and p0': "p0' = (if pre = [] then Some e else p0)"
    and mid: "(post = [] \<and> sibling (h' e) = None \<and> next (h' e) = None \<and> mid = [[e]]) \<or>
       (\<exists>b bs. post = b # bs \<and>
          (sibling (h' e) = Some (hd b) \<and> next (h' e) = next (h (hd b)) \<and> mid = (e # b) # bs \<or>
           sibling (h' e) = None \<and> next (h' e) = Some (hd b) \<and> mid = [e] # b # bs))"
  shows "bucket_path h' p0' (pre @ mid) None \<and> distinct (concat (pre @ mid))"
proof -
  have nepre: "[] \<notin> set pre" using a by (rule bucket_path_nonempty)
  have nep: "[] \<notin> set post" using d by (rule bucket_path_nonempty)
  have l_in: "pre \<noteq> [] \<Longrightarrow> hd (last pre) \<in> set (concat pre)"
    using nepre by (intro hd_last_in_concat) auto
  have e_pre: "e \<notin> set (concat pre)" and e_post: "e \<notin> set (concat post)"
    using E by auto
  have disj: "set (concat pre) \<inter> set (concat post) = {}"
    and dpre: "distinct (concat pre)" and dpost: "distinct (concat post)"
    using dist by auto
  have first: "bucket_path h' p0' pre (Some e)"
  proof (cases "pre = []")
    case True
    then show ?thesis using p0' by simp
  next
    case False
    have "bucket_path h' p0 pre (Some e)"
    proof (rule bucket_path_upd [OF a])
      fix x assume "x \<in> set (concat pre)"
      then show "sibling (h' x) = sibling (h x)" using e_pre by (intro sib) auto
    next
      fix b assume b: "b \<in> set (butlast pre)"
      then have "b \<in> set pre" by (rule in_set_butlastD)
      then have "b \<noteq> []" using nepre by auto
      have "hd b \<noteq> hd (last pre)" using dpre nepre b by (rule butlast_heads_differ)
      moreover have "hd b \<noteq> e"
        using hd_in_concat [OF \<open>b \<in> set pre\<close> \<open>b \<noteq> []\<close>] e_pre by auto
      ultimately show "next (h' (hd b)) = next (h (hd b))" by (intro nxt) auto
    next
      show "next (h' (hd (last pre))) = Some e" using False by (rule lst)
    next
      assume "pre = []" then show "Some e = m" using False by simp
    qed
    then show ?thesis using False p0' by simp
  qed
  have post_cong: "bucket_path h' r bs None"
    if "bucket_path h r bs None" "set (concat bs) \<subseteq> set (concat post)" "[] \<notin> set bs" for r bs
  proof (rule bucket_path_cong [OF that(1)])
    fix x assume "x \<in> set (concat bs)"
    then show "sibling (h' x) = sibling (h x)" using that(2) e_post by (intro sib) auto
  next
    fix b assume "b \<in> set bs"
    then have "hd b \<in> set (concat bs)" using that(3) by (intro hd_in_concat) auto
    then have i: "hd b \<in> set (concat post)" using that(2) by auto
    then have "hd b \<noteq> e" using e_post by blast
    moreover have "hd b \<noteq> hd (last pre)" if "pre \<noteq> []"
    proof
      assume "hd b = hd (last pre)"
      then have "hd b \<in> set (concat pre)" using l_in [OF that] by simp
      with i disj show False by (meson disjoint_iff)
    qed
    ultimately show "next (h' (hd b)) = next (h (hd b))" by (rule nxt)
  qed
  have second: "bucket_path h' (Some e) mid None"
  proof (cases post)
    case Nil
    then show ?thesis using mid by simp
  next
    case (Cons b bs)
    then obtain c xs where b: "b = c # xs" using nep by (cases b) auto
    from d Cons b have m: "m = Some c" and sc: "sib_chain h (sibling (h c)) xs"
      and r: "bucket_path h (next (h c)) bs None" by auto
    from mid Cons b consider
      (same) "sibling (h' e) = Some c" "next (h' e) = next (h c)" "mid = (e # b) # bs"
      | (other) "sibling (h' e) = None" "next (h' e) = Some c" "mid = [e] # b # bs"
      by auto
    then show ?thesis
    proof cases
      case same
      have "sib_chain h' (sibling (h' c)) xs"
      proof -
        have "sib_chain h' (sibling (h c)) xs = sib_chain h (sibling (h c)) xs"
          using e_post Cons b by (intro sib_chain_cong sib) auto
        moreover have "sibling (h' c) = sibling (h c)" using e_post Cons b by (intro sib) auto
        ultimately show ?thesis using sc by simp
      qed
      moreover have "bucket_path h' (next (h c)) bs None"
        using r Cons nep by (intro post_cong) auto
      ultimately show ?thesis using same b by simp
    next
      case other
      have "bucket_path h' (Some c) post None"
        using d m nep by (intro post_cong) auto
      then show ?thesis using other Cons b by simp
    qed
  qed
  have "bucket_path h' p0' (pre @ mid) None"
    unfolding bucket_path_append using first second by blast
  moreover have cm: "concat mid = e # concat post" using mid by auto
  have "distinct (concat (pre @ mid))"
    using dist E by (simp add: cm)
  ultimately show ?thesis by simp
qed

lemma mem_dealloc_correct:
  assumes B: "buckets (buffer q) (chunks q) cs" and E: "e \<notin> set (concat cs)"
  shows "\<exists>q'. equeue_mem_dealloc q e = Some q' \<and>
     buckets (buffer q') (chunks q') (put_free (buffer q) e cs) \<and>
     queue q' = queue q \<and> calls q' = calls q \<and> npw2 q' = npw2 q \<and>
     slab_size q' = slab_size q \<and> slab_data q' = slab_data q \<and> breaks q' = breaks q \<and>
     (\<forall>a. same_data (buffer q' a) (buffer q a) \<and> ref (buffer q' a) = ref (buffer q a)) \<and>
     (\<forall>a. a \<notin> set (concat cs) \<and> a \<noteq> e \<longrightarrow> buffer q' a = buffer q a)"
proof -
  let ?h = "buffer q"
  let ?sz = "size_ev (?h e)"
  let ?P = "smaller ?h ?sz"
  define pre where "pre = takeWhile ?P cs"
  define post where "post = dropWhile ?P cs"
  have cs: "cs = pre @ post" by (simp add: pre_def post_def)
  have bp: "bucket_path ?h (chunks q) cs None" and dist: "distinct (concat cs)"
    using B by (simp_all add: buckets_def)
  have ne: "[] \<notin> set cs" using bp by (rule bucket_path_nonempty)
  have "\<exists>p'. mem_dealloc_walk q ?sz ChunksSlot = Some p' \<and>
      bucket_path ?h (chunks q) pre (slot_get q p') \<and> bucket_path ?h (slot_get q p') post None \<and>
      p' = (if pre = [] then ChunksSlot else NextSlot (hd (last pre)))"
    unfolding pre_def post_def using mem_dealloc_walk_path [of q ChunksSlot cs ?sz] bp by simp
  then obtain p' where
    w: "mem_dealloc_walk q ?sz ChunksSlot = Some p'"
    and a: "bucket_path ?h (chunks q) pre (slot_get q p')"
    and d: "bucket_path ?h (slot_get q p') post None"
    and p': "p' = (if pre = [] then ChunksSlot else NextSlot (hd (last pre)))"
    by blast
  define sn where "sn = (case post of [] \<Rightarrow> (None, None)
     | b # bs \<Rightarrow> if size_ev (?h (hd b)) = ?sz then (Some (hd b), next (?h (hd b)))
                else (None, Some (hd b)))"
  define q' where "q' = slot_set p' (Some e) (upd e (\<lambda>x. x\<lparr>sibling := fst sn, next := snd sn\<rparr>) q)"
  have g: "slot_get q p' = (case post of [] \<Rightarrow> None | b # bs \<Rightarrow> Some (hd b))"
    using d by (cases post) (auto dest: bucket_path_head)
  have l_in: "pre \<noteq> [] \<Longrightarrow> hd (last pre) \<in> set (concat pre)"
    using ne cs by (intro hd_last_in_concat) auto
  have e_pre: "e \<notin> set (concat pre)" and e_post: "e \<notin> set (concat post)"
    using E cs by auto
  have l_ne: "pre \<noteq> [] \<Longrightarrow> hd (last pre) \<noteq> e" using l_in e_pre by auto
  have nep: "[] \<notin> set post" using ne cs by auto
  have run: "equeue_mem_dealloc q e = Some q'"
  proof (cases post)
    case Nil
    then show ?thesis
      unfolding equeue_mem_dealloc_def w q'_def sn_def using g l_ne p'
      by (cases "pre = []") (simp_all add: Let_def)
  next
    case (Cons b bs)
    then have "hd b \<in> set (concat post)" using nep by (intro hd_in_concat) auto
    then have "hd b \<noteq> e" using e_post by auto
    then show ?thesis
      unfolding equeue_mem_dealloc_def w q'_def sn_def using g l_ne p' Cons
      by (cases "pre = []") (simp_all add: Let_def)
  qed
  let ?h' = "buffer q'"
  let ?mid = "case post of [] \<Rightarrow> [[e]]
      | b # bs \<Rightarrow> if size_ev (?h (hd b)) = ?sz then (e # b) # bs else [e] # b # bs"
  have pf: "put_free ?h e cs = pre @ ?mid"
    by (simp add: put_free_split pre_def post_def)
  have "bucket_path ?h' (chunks q') (pre @ ?mid) None \<and> distinct (concat (pre @ ?mid))"
  proof (rule splice_path [OF a d])
    show "distinct (concat (pre @ post))" using dist cs by simp
    show "e \<notin> set (concat (pre @ post))" using E cs by simp
    show "sibling (?h' x) = sibling (?h x)" if "x \<noteq> e" for x
      using that p' by (cases "pre = []") (auto simp: q'_def)
    show "next (?h' x) = next (?h x)" if "x \<noteq> e" "pre \<noteq> [] \<Longrightarrow> x \<noteq> hd (last pre)" for x
      using that p' by (cases "pre = []") (auto simp: q'_def)
    show "pre \<noteq> [] \<Longrightarrow> next (?h' (hd (last pre))) = Some e"
      using p' by (simp add: q'_def)
    show "chunks q' = (if pre = [] then Some e else chunks q)"
      using p' by (simp add: q'_def)
    have "sibling (?h' e) = fst sn" and "next (?h' e) = snd sn"
      using l_ne p' by (cases "pre = []"; simp add: q'_def)+
    then show "(post = [] \<and> sibling (?h' e) = None \<and> next (?h' e) = None \<and> ?mid = [[e]]) \<or>
       (\<exists>b bs. post = b # bs \<and>
          (sibling (?h' e) = Some (hd b) \<and> next (?h' e) = next (?h (hd b)) \<and> ?mid = (e # b) # bs \<or>
           sibling (?h' e) = None \<and> next (?h' e) = Some (hd b) \<and> ?mid = [e] # b # bs))"
      by (cases post) (auto simp: sn_def)
  qed
  then have "buckets ?h' (chunks q') (put_free ?h e cs)"
    unfolding pf buckets_def .
  moreover have "\<forall>a. same_data (?h' a) (?h a) \<and> ref (?h' a) = ref (?h a)"
    using p' by (cases "pre = []") (auto simp: q'_def same_data_def)
  moreover have "\<forall>a. a \<notin> set (concat cs) \<and> a \<noteq> e \<longrightarrow> ?h' a = ?h a"
    using l_in p' cs by (cases "pre = []") (auto simp: q'_def)
  moreover have "queue q' = queue q \<and> calls q' = calls q \<and> npw2 q' = npw2 q \<and>
     slab_size q' = slab_size q \<and> slab_data q' = slab_data q \<and> breaks q' = breaks q"
    using p' by (cases "pre = []") (auto simp: q'_def)
  ultimately show ?thesis using run by simp
qed

section \<open>Inserting into the queue\<close>

lemma ins_bucket_split:
  "ins_bucket h e tg bs = takeWhile (earlier h tg) bs @
     (case dropWhile (earlier h tg) bs of [] \<Rightarrow> [[e]]
      | b # bs \<Rightarrow> if target (h (hd b)) = tg then (e # b) # bs else [e] # b # bs)"
  by (induction bs) (auto simp: earlier_def)

lemma enqueue_walk_path:
  assumes "bucket_path (buffer q) (slot_get q p) bs None"
  shows "\<exists>p'. enqueue_walk q tg p = Some p' \<and>
     bucket_path (buffer q) (slot_get q p) (takeWhile (earlier (buffer q) tg) bs) (slot_get q p') \<and>
     bucket_path (buffer q) (slot_get q p') (dropWhile (earlier (buffer q) tg) bs) None \<and>
     p' = (if takeWhile (earlier (buffer q) tg) bs = [] then p
           else NextSlot (hd (last (takeWhile (earlier (buffer q) tg) bs))))"
  using assms
proof (induction bs arbitrary: p)
  case Nil
  then show ?case by (subst enqueue_walk.simps) simp
next
  case (Cons b bs)
  from Cons.prems obtain x xs where b: "b = x # xs" by (cases b) auto
  with Cons.prems have p: "slot_get q p = Some x"
    and s: "sib_chain (buffer q) (sibling (buffer q x)) xs"
    and t: "bucket_path (buffer q) (slot_get q (NextSlot x)) bs None" by auto
  show ?case
  proof (cases "earlier (buffer q) tg b")
    case True
    from Cons.IH [OF t] obtain p' where
      w: "enqueue_walk q tg (NextSlot x) = Some p'"
      and a: "bucket_path (buffer q) (slot_get q (NextSlot x))
           (takeWhile (earlier (buffer q) tg) bs) (slot_get q p')"
      and d: "bucket_path (buffer q) (slot_get q p') (dropWhile (earlier (buffer q) tg) bs) None"
      and e: "p' = (if takeWhile (earlier (buffer q) tg) bs = [] then NextSlot x
           else NextSlot (hd (last (takeWhile (earlier (buffer q) tg) bs))))" by blast
    have "enqueue_walk q tg p = Some p'"
      using True w p b by (subst enqueue_walk.simps) (simp add: earlier_def)
    then show ?thesis using True a d e p s b by auto
  next
    case False
    have "enqueue_walk q tg p = Some p"
      using False p b by (subst enqueue_walk.simps) (simp add: earlier_def)
    then show ?thesis using False Cons.prems by simp
  qed
qed

lemma ins_bucket_cong:
  "(\<And>b. b \<in> set bs \<Longrightarrow> target (h' (hd b)) = target (h (hd b))) \<Longrightarrow>
   ins_bucket h' e tg bs = ins_bucket h e tg bs"
  by (induction bs) auto

lemma bucket_path_second:
  "bucket_path h p (b # c # bs) None \<Longrightarrow> next (h (hd b)) = Some (hd c)"
  by (cases b; cases c) auto

lemma bucket_path_single:
  "bucket_path h p [b] None \<Longrightarrow> next (h (hd b)) = None"
  by (cases b) auto

lemma enqueue_correct:
  assumes B: "buckets (buffer q) (queue q) bs" and E: "e \<notin> set (concat bs)"
  shows "\<exists>q'. equeue_enqueue q e now ms = Some q' \<and>
     buckets (buffer q') (queue q') (ins_bucket (buffer q) e (now + ms) bs) \<and>
     target (buffer q' e) = now + ms \<and>
     size_ev (buffer q' e) = size_ev (buffer q e) \<and> id_ev (buffer q' e) = id_ev (buffer q e) \<and>
     period (buffer q' e) = period (buffer q e) \<and> cb (buffer q' e) = cb (buffer q e) \<and>
     dtor (buffer q' e) = dtor (buffer q e) \<and>
     chunks q' = chunks q \<and> calls q' = calls q \<and> npw2 q' = npw2 q \<and>
     slab_size q' = slab_size q \<and> slab_data q' = slab_data q \<and> breaks q' = breaks q \<and>
     (\<forall>a. a \<noteq> e \<longrightarrow> same_data (buffer q' a) (buffer q a)) \<and>
     (\<forall>a. a \<notin> set (concat bs) \<and> a \<noteq> e \<longrightarrow> buffer q' a = buffer q a)"
proof -
  let ?tg = "now + ms"
  define q0 where "q0 = upd e (\<lambda>x. x\<lparr>target := ?tg\<rparr>) q"
  let ?h = "buffer q0"
  let ?P = "earlier ?h ?tg"
  define pre where "pre = takeWhile ?P bs"
  define post where "post = dropWhile ?P bs"
  have bs: "bs = pre @ post" by (simp add: pre_def post_def)
  have dist: "distinct (concat bs)" using B by (simp add: buckets_def)
  have bp: "bucket_path ?h (queue q0) bs None"
  proof (rule bucket_path_cong)
    show "bucket_path (buffer q) (queue q0) bs None" using B by (simp add: buckets_def q0_def)
  qed (simp_all add: q0_def)
  have ne: "[] \<notin> set bs" using bp by (rule bucket_path_nonempty)
  have tg: "target (?h e) = ?tg" by (simp add: q0_def)
  have "\<exists>p'. enqueue_walk q0 ?tg QueueSlot = Some p' \<and>
      bucket_path ?h (queue q0) pre (slot_get q0 p') \<and> bucket_path ?h (slot_get q0 p') post None \<and>
      p' = (if pre = [] then QueueSlot else NextSlot (hd (last pre)))"
    unfolding pre_def post_def using enqueue_walk_path [of q0 QueueSlot bs ?tg] bp by simp
  then obtain p' where
    w: "enqueue_walk q0 ?tg QueueSlot = Some p'"
    and a: "bucket_path ?h (queue q0) pre (slot_get q0 p')"
    and d: "bucket_path ?h (slot_get q0 p') post None"
    and p': "p' = (if pre = [] then QueueSlot else NextSlot (hd (last pre)))"
    by blast
  have g: "slot_get q0 p' = (case post of [] \<Rightarrow> None | b # bs \<Rightarrow> Some (hd b))"
    using d by (cases post) (auto dest: bucket_path_head)
  have l_in: "pre \<noteq> [] \<Longrightarrow> hd (last pre) \<in> set (concat pre)"
    using ne bs by (intro hd_last_in_concat) auto
  have e_pre: "e \<notin> set (concat pre)" and e_post: "e \<notin> set (concat post)"
    using E bs by auto
  have l_ne: "pre \<noteq> [] \<Longrightarrow> hd (last pre) \<noteq> e" using l_in e_pre by auto
  have nep: "[] \<notin> set post" using ne bs by auto
  obtain q' where run: "equeue_enqueue q e now ms = Some q'"
    and q': "q' = slot_set p' (Some e) (upd e (\<lambda>x. x\<lparr>ref := p'\<rparr>)
      (case slot_get q0 p' of
                Some c \<Rightarrow>
                  if target (buffer q0 c) = target (buffer q0 e) then
                    (let qa = upd c (\<lambda>x. x\<lparr>ref := SiblingSlot e\<rparr>) q0;
                         qb = upd e (\<lambda>x. x\<lparr>sibling := Some c\<rparr>) qa;
                         qc = (case next (buffer qb c) of None \<Rightarrow> qb
                               | Some n \<Rightarrow> upd n (\<lambda>x. x\<lparr>ref := NextSlot e\<rparr>) qb)
                     in upd e (\<lambda>x. x\<lparr>next := next (buffer qc c)\<rparr>) qc)
                  else
                    (let qa = upd c (\<lambda>x. x\<lparr>ref := NextSlot e\<rparr>) q0;
                         qb = upd e (\<lambda>x. x\<lparr>next := Some c\<rparr>) qa
                     in upd e (\<lambda>x. x\<lparr>sibling := None\<rparr>) qb)
              | None \<Rightarrow>
                  (let qb = upd e (\<lambda>x. x\<lparr>next := None\<rparr>) q0
                   in upd e (\<lambda>x. x\<lparr>sibling := None\<rparr>) qb)))"
    unfolding equeue_enqueue_def q0_def [symmetric] Let_def tg using w by (simp add: tg)
  let ?h' = "buffer q'"
  have succ: "next (?h (hd b)) \<noteq> Some e" if "post = b # rest" for b rest
  proof (cases rest)
    case Nil
    then show ?thesis using d that bucket_path_single [of ?h "slot_get q0 p'" b] by simp
  next
    case (Cons c rest')
    then have "next (?h (hd b)) = Some (hd c)"
      using d that bucket_path_second [of ?h "slot_get q0 p'" b c rest'] by simp
    moreover have "hd c \<in> set (concat post)" using that Cons nep by (intro hd_in_concat) auto
    ultimately show ?thesis using e_post by auto
  qed
  have c_ne: "hd b \<noteq> e" if "post = b # rest" for b rest
  proof -
    have "hd b \<in> set (concat post)" using that nep by (intro hd_in_concat) auto
    then show ?thesis using e_post by auto
  qed
  have sib: "sibling (?h' x) = sibling (?h x)" if "x \<noteq> e" for x
    using that p' g by (cases "pre = []"; cases post)
      (auto simp: q' Let_def split: option.splits)
  have nxt: "next (?h' x) = next (?h x)" if "x \<noteq> e" "pre \<noteq> [] \<Longrightarrow> x \<noteq> hd (last pre)" for x
    using that p' g by (cases "pre = []"; cases post)
      (auto simp: q' Let_def split: option.splits)
  let ?mid = "case post of [] \<Rightarrow> [[e]]
      | b # bs \<Rightarrow> if target (?h (hd b)) = ?tg then (e # b) # bs else [e] # b # bs"
  have pf: "ins_bucket ?h e ?tg bs = pre @ ?mid"
    by (simp add: ins_bucket_split pre_def post_def)
  have "bucket_path ?h' (queue q') (pre @ ?mid) None \<and> distinct (concat (pre @ ?mid))"
  proof (rule splice_path [OF a d])
    show "distinct (concat (pre @ post))" using dist bs by simp
    show "e \<notin> set (concat (pre @ post))" using E bs by simp
    show "sibling (?h' x) = sibling (?h x)" if "x \<noteq> e" for x using that by (rule sib)
    show "next (?h' x) = next (?h x)" if "x \<noteq> e" "pre \<noteq> [] \<Longrightarrow> x \<noteq> hd (last pre)" for x
      using that by (rule nxt)
    show "pre \<noteq> [] \<Longrightarrow> next (?h' (hd (last pre))) = Some e"
      using p' by (simp add: q')
    show "queue q' = (if pre = [] then Some e else queue q0)"
      using p' g by (cases post) (auto simp: q' Let_def split: option.splits)
    show "(post = [] \<and> sibling (?h' e) = None \<and> next (?h' e) = None \<and> ?mid = [[e]]) \<or>
       (\<exists>b bs. post = b # bs \<and>
          (sibling (?h' e) = Some (hd b) \<and> next (?h' e) = next (?h (hd b)) \<and> ?mid = (e # b) # bs \<or>
           sibling (?h' e) = None \<and> next (?h' e) = Some (hd b) \<and> ?mid = [e] # b # bs))"
    proof (cases post)
      case Nil
      then show ?thesis using g l_ne p' by (cases "pre = []") (simp_all add: q' Let_def)
    next
      case (Cons b rest)
      then show ?thesis using g l_ne p' succ [OF Cons] c_ne [OF Cons] tg
        by (cases "pre = []") (auto simp: q' Let_def split: option.splits)
    qed
  qed
  moreover have "ins_bucket (buffer q) e ?tg bs = ins_bucket ?h e ?tg bs"
  proof (rule ins_bucket_cong [symmetric])
    fix b assume "b \<in> set bs"
    then have "hd b \<in> set (concat bs)" using ne by (intro hd_in_concat) auto
    then have "hd b \<noteq> e" using E by auto
    then show "target (?h (hd b)) = target (buffer q (hd b))" by (simp add: q0_def)
  qed
  ultimately have "buckets ?h' (queue q') (ins_bucket (buffer q) e ?tg bs)"
    unfolding pf buckets_def by simp
  moreover have "target (?h' e) = ?tg \<and>
     size_ev (?h' e) = size_ev (buffer q e) \<and> id_ev (?h' e) = id_ev (buffer q e) \<and>
     period (?h' e) = period (buffer q e) \<and> cb (?h' e) = cb (buffer q e) \<and>
     dtor (?h' e) = dtor (buffer q e)"
  proof (cases post)
    case Nil
    then show ?thesis using g l_ne p' by (cases "pre = []") (simp_all add: q' Let_def q0_def)
  next
    case (Cons b rest)
    then show ?thesis using g l_ne p' succ [OF Cons] c_ne [OF Cons]
      by (cases "pre = []") (auto simp: q' Let_def q0_def split: option.splits)
  qed
  moreover have "\<forall>a. a \<noteq> e \<longrightarrow> same_data (?h' a) (buffer q a)"
    using p' g by (cases "pre = []"; cases post)
      (auto simp: q' Let_def q0_def same_data_def split: option.splits)
  moreover have "\<forall>a. a \<notin> set (concat bs) \<and> a \<noteq> e \<longrightarrow> ?h' a = buffer q a"
  proof (intro allI impI)
    fix a assume A: "a \<notin> set (concat bs) \<and> a \<noteq> e"
    have 1: "pre \<noteq> [] \<Longrightarrow> a \<noteq> hd (last pre)" using A l_in bs by auto
    have 2: "a \<noteq> hd b" if "post = b # rest" for b rest
    proof -
      have "hd b \<in> set (concat post)" using that nep by (intro hd_in_concat) auto
      then show ?thesis using A bs by auto
    qed
    have 3: "next (?h (hd b)) \<noteq> Some a" if "post = b # rest" for b rest
    proof (cases rest)
      case Nil
      then show ?thesis using d that bucket_path_single [of ?h "slot_get q0 p'" b] by simp
    next
      case (Cons c rest')
      then have "next (?h (hd b)) = Some (hd c)"
        using d that bucket_path_second [of ?h "slot_get q0 p'" b c rest'] by simp
      moreover have "hd c \<in> set (concat post)" using that Cons nep by (intro hd_in_concat) auto
      ultimately show ?thesis using A bs by auto
    qed
    show "?h' a = buffer q a"
    proof (cases post)
      case Nil
      then show ?thesis using g A 1 p' by (cases "pre = []") (simp_all add: q' Let_def q0_def)
    next
      case (Cons b rest)
      then show ?thesis using g A 1 p' 2 [OF Cons] 3 [OF Cons] c_ne [OF Cons]
        by (cases "pre = []") (auto simp: q' Let_def q0_def split: option.splits)
    qed
  qed
  moreover have "chunks q' = chunks q \<and> calls q' = calls q \<and> npw2 q' = npw2 q \<and>
     slab_size q' = slab_size q \<and> slab_data q' = slab_data q \<and> breaks q' = breaks q"
    using p' g by (cases "pre = []"; cases post)
      (auto simp: q' Let_def q0_def split: option.splits)
  ultimately show ?thesis using run by simp
qed

section \<open>Reversing a bucket\<close>

lemma next_chain_cong:
  "(\<And>x. x \<in> set xs \<Longrightarrow> next (h' x) = next (h x)) \<Longrightarrow> next_chain h' p xs = next_chain h p xs"
  by (induction xs arbitrary: p) auto

lemma next_chain_append_upd:
  assumes "next_chain h p acc" and "acc \<noteq> []" and "distinct acc"
    and "\<And>x. x \<in> set (butlast acc) \<Longrightarrow> next (h' x) = next (h x)"
    and "next (h' (last acc)) = r" and "next_chain h' r ys"
  shows "next_chain h' p (acc @ ys)"
  using assms
proof (induction acc arbitrary: p)
  case Nil
  then show ?case by simp
next
  case (Cons x acc)
  show ?case
  proof (cases "acc = []")
    case True
    then show ?thesis using Cons.prems by simp
  next
    case False
    have "next_chain h' (next (h x)) (acc @ ys)"
      using Cons.prems False by (intro Cons.IH) auto
    moreover have "next (h' x) = next (h x)" using Cons.prems(4) [of x] False by simp
    ultimately show ?thesis using Cons.prems(1) by simp
  qed
qed

lemma only_next_refl: "only_next q q"
  by (simp add: only_next_def)

lemma only_next_trans: "only_next q'' q' \<Longrightarrow> only_next q' q \<Longrightarrow> only_next q'' q"
  unfolding only_next_def
  by (metis (no_types, lifting) event.surjective event.update_convs(7))

lemma only_next_upd: "only_next (upd a (\<lambda>x. x\<lparr>next := v\<rparr>) q) q"
  by (simp add: only_next_def)

lemma only_next_fields:
  assumes "only_next q' q"
  shows "sibling (buffer q' a) = sibling (buffer q a)" and "target (buffer q' a) = target (buffer q a)"
proof -
  have e: "buffer q' a = (buffer q a)\<lparr>next := next (buffer q' a)\<rparr>"
    using assms by (simp add: only_next_def)
  show "sibling (buffer q' a) = sibling (buffer q a)" by (subst e) simp
  show "target (buffer q' a) = target (buffer q a)" by (subst e) simp
qed

lemma dequeue_reverse_correct:
  assumes "sib_chain (buffer q) e xs" and "distinct xs"
    and "next_chain (buffer q) prev ps" and "set xs \<inter> set ps = {}"
  shows "\<exists>q'. dequeue_reverse q e prev = Some (q', if xs = [] then prev else Some (last xs)) \<and>
     next_chain (buffer q') (if xs = [] then prev else Some (last xs)) (rev xs @ ps) \<and>
     only_next q' q \<and> queue q' = queue q \<and>
     (\<forall>a. a \<notin> set xs \<longrightarrow> buffer q' a = buffer q a)"
  using assms
proof (induction xs arbitrary: q e prev ps)
  case Nil
  then show ?case by (subst dequeue_reverse.simps) (simp add: only_next_refl)
next
  case (Cons x xs)
  let ?q1 = "upd x (\<lambda>y. y\<lparr>next := prev\<rparr>) q"
  from Cons.prems have e: "e = Some x" and s: "sib_chain (buffer q) (sibling (buffer q x)) xs"
    by auto
  have s1: "sib_chain (buffer ?q1) (sibling (buffer q x)) xs"
    using s sib_chain_cong [of xs "buffer ?q1" "buffer q"] by simp
  have n1: "next_chain (buffer ?q1) (Some x) (x # ps)"
  proof -
    have "next_chain (buffer ?q1) prev ps = next_chain (buffer q) prev ps"
      using Cons.prems(4) by (intro next_chain_cong) auto
    then show ?thesis using Cons.prems(3) by simp
  qed
  have "\<exists>q'. dequeue_reverse ?q1 (sibling (buffer q x)) (Some x) =
        Some (q', if xs = [] then Some x else Some (last xs)) \<and>
     next_chain (buffer q') (if xs = [] then Some x else Some (last xs)) (rev xs @ x # ps) \<and>
     only_next q' ?q1 \<and> queue q' = queue ?q1 \<and>
     (\<forall>a. a \<notin> set xs \<longrightarrow> buffer q' a = buffer ?q1 a)"
    using Cons.prems by (intro Cons.IH [OF s1 _ n1]) auto
  then obtain q' where
    r: "dequeue_reverse ?q1 (sibling (buffer q x)) (Some x) =
        Some (q', if xs = [] then Some x else Some (last xs))"
    and c: "next_chain (buffer q') (if xs = [] then Some x else Some (last xs)) (rev xs @ x # ps)"
    and o: "only_next q' ?q1" and qq: "queue q' = queue ?q1"
    and f: "\<forall>a. a \<notin> set xs \<longrightarrow> buffer q' a = buffer ?q1 a" by blast
  have "dequeue_reverse q e prev = Some (q', if xs = [] then Some x else Some (last xs))"
    using r e by (subst dequeue_reverse.simps) (simp add: Let_def)
  moreover have "only_next q' q" using o only_next_upd by (rule only_next_trans)
  ultimately show ?case using c f qq by auto
qed

section \<open>Draining the queue\<close>

lemma due_only_next: "only_next q' q \<Longrightarrow> due (buffer q') tg = due (buffer q) tg"
  by (rule ext) (simp add: due_def only_next_fields)

lemma only_next_queue: "only_next (q\<lparr>queue := v\<rparr>) q"
  by (simp add: only_next_def)

lemma in_bucket_in_concat: "x \<in> set b \<Longrightarrow> b \<in> set bs \<Longrightarrow> x \<in> set (concat bs)"
  by auto

lemma bucket_path_frame:
  assumes "bucket_path h p bs r" and "\<And>x. x \<in> set (concat bs) \<Longrightarrow> h' x = h x"
  shows "bucket_path h' p bs r"
proof (rule bucket_path_cong [OF assms(1)])
  fix x assume "x \<in> set (concat bs)"
  then show "sibling (h' x) = sibling (h x)" using assms(2) by simp
next
  fix b assume b: "b \<in> set bs"
  have "[] \<notin> set bs" using assms(1) by (rule bucket_path_nonempty)
  then have "hd b \<in> set (concat bs)" using b by (intro hd_in_concat) auto
  then show "next (h' (hd b)) = next (h (hd b))" using assms(2) by simp
qed

lemma dequeue_loop_correct:
  assumes "bucket_path (buffer q) (queue q) bs None" and "distinct (concat bs)"
    and "next_chain (buffer q) head acc" and "distinct acc"
    and "set acc \<inter> set (concat bs) = {}"
    and "tail = (if acc = [] then None else Some (last acc))"
  shows "\<exists>q' head' dl'. dequeue_loop q tg head tail dl = Some (q', head', dl') \<and>
      next_chain (buffer q') head' (acc @ concat (map rev (takeWhile (due (buffer q) tg) bs))) \<and>
      bucket_path (buffer q') (queue q') (dropWhile (due (buffer q) tg) bs) None \<and>
      dl' = (case dropWhile (due (buffer q) tg) bs of [] \<Rightarrow> dl
             | b # _ \<Rightarrow> equeue_tickdiff (target (buffer q (hd b))) tg) \<and>
      only_next q' q \<and>
      (\<forall>a. a \<notin> set acc \<union> set (concat (takeWhile (due (buffer q) tg) bs)) \<longrightarrow>
           buffer q' a = buffer q a)"
  using assms
proof (induction bs arbitrary: q head tail acc)
  case Nil
  then show ?case by (subst dequeue_loop.simps) (simp add: only_next_refl)
next
  case (Cons b bs)
  let ?h = "buffer q"
  from Cons.prems(1) obtain x xs where b: "b = x # xs" by (cases b) auto
  with Cons.prems(1) have qh: "queue q = Some x"
    and sc: "sib_chain ?h (Some x) b"
    and rest: "bucket_path ?h (next (?h x)) bs None" by auto
  show ?case
  proof (cases "due ?h tg b")
    case False
    then have "dequeue_loop q tg head tail dl =
        Some (q, head, equeue_tickdiff (target (?h x)) tg)"
      using qh b by (subst dequeue_loop.simps) (simp add: due_def Let_def)
    then show ?thesis using False Cons.prems b by (simp add: only_next_refl)
  next
    case True
    let ?qa = "q\<lparr>queue := next (?h x)\<rparr>"
    have db: "distinct b" and dbs: "distinct (concat bs)"
      and bbs: "set b \<inter> set (concat bs) = {}"
      using Cons.prems(2) by auto
    have accb: "set acc \<inter> set b = {}" and accbs: "set acc \<inter> set (concat bs) = {}"
      using Cons.prems(5) by auto
    have "\<exists>q1. dequeue_reverse ?qa (Some x) None = Some (q1, if b = [] then None else Some (last b)) \<and>
       next_chain (buffer q1) (if b = [] then None else Some (last b)) (rev b @ []) \<and>
       only_next q1 ?qa \<and> queue q1 = queue ?qa \<and>
       (\<forall>a. a \<notin> set b \<longrightarrow> buffer q1 a = buffer ?qa a)"
      using sc db by (intro dequeue_reverse_correct) auto
    then obtain q1 where
      r: "dequeue_reverse ?qa (Some x) None = Some (q1, Some (last b))"
      and c1: "next_chain (buffer q1) (Some (last b)) (rev b)"
      and o1: "only_next q1 ?qa" and qq1: "queue q1 = next (?h x)"
      and f1: "\<forall>a. a \<notin> set b \<longrightarrow> buffer q1 a = ?h a"
      using b by auto
    have o1q: "only_next q1 q" using o1 only_next_queue by (rule only_next_trans)
    define q2 where "q2 = (case tail of None \<Rightarrow> q1
       | Some t \<Rightarrow> upd t (\<lambda>y. y\<lparr>next := Some (last b)\<rparr>) q1)"
    define head2 where "head2 = (case tail of None \<Rightarrow> Some (last b) | Some t \<Rightarrow> head)"
    have step: "dequeue_loop q tg head tail dl = dequeue_loop q2 tg head2 (Some x) dl"
      using qh True r by (subst dequeue_loop.simps)
        (simp add: due_def Let_def b q2_def head2_def split: option.splits)
    have o2: "only_next q2 q"
    proof (cases tail)
      case None
      then show ?thesis using o1q by (simp add: q2_def)
    next
      case (Some t)
      then show ?thesis using only_next_upd o1q by (auto simp: q2_def intro: only_next_trans)
    qed
    have qq2: "queue q2 = next (?h x)" using qq1 by (simp add: q2_def split: option.splits)
    have f2: "buffer q2 a = ?h a" if "a \<notin> set b" "a \<notin> set acc" for a
    proof (cases "acc = []")
      case True
      then show ?thesis using that f1 Cons.prems(6) by (simp add: q2_def)
    next
      case False
      then have "last acc \<in> set acc" by simp
      then have "a \<noteq> last acc" using that by auto
      then show ?thesis using that f1 Cons.prems(6) False by (simp add: q2_def)
    qed
    have p1: "bucket_path (buffer q2) (queue q2) bs None"
      unfolding qq2 using rest
    proof (rule bucket_path_frame)
      fix a assume "a \<in> set (concat bs)"
      then show "buffer q2 a = ?h a" using bbs accbs by (intro f2) auto
    qed
    have p3: "next_chain (buffer q2) head2 (acc @ rev b)"
    proof (cases "acc = []")
      case True
      then show ?thesis using c1 Cons.prems(6) by (simp add: q2_def head2_def)
    next
      case False
      then have t: "tail = Some (last acc)" using Cons.prems(6) by simp
      have la: "last acc \<in> set acc" using False by simp
      have "next_chain (buffer q2) head (acc @ rev b)"
      proof (rule next_chain_append_upd [OF Cons.prems(3) False Cons.prems(4)])
        fix a assume a: "a \<in> set (butlast acc)"
        then have "a \<in> set acc" by (rule in_set_butlastD)
        moreover have "a \<noteq> last acc" using a Cons.prems(4) False
          by (metis append_butlast_last_id distinct_butlast not_distinct_conv_prefix)
        ultimately show "next (buffer q2 a) = next (?h a)"
          using accb f1 t by (auto simp: q2_def)
      next
        show "next (buffer q2 (last acc)) = Some (last b)" using t by (simp add: q2_def)
      next
        have "next_chain (buffer q2) (Some (last b)) (rev b) =
            next_chain (buffer q1) (Some (last b)) (rev b)"
          using accb la t by (intro next_chain_cong) (auto simp: q2_def)
        then show "next_chain (buffer q2) (Some (last b)) (rev b)" using c1 by simp
      qed
      then show ?thesis using t by (simp add: head2_def)
    qed
    have p4: "distinct (acc @ rev b)" using Cons.prems(4) db accb by auto
    have p5: "set (acc @ rev b) \<inter> set (concat bs) = {}" using accbs bbs by auto
    have p6: "Some x = (if acc @ rev b = [] then None else Some (last (acc @ rev b)))"
      using b by simp
    from Cons.IH [OF p1 dbs p3 p4 p5 p6]
    obtain q' head' dl' where
      run: "dequeue_loop q2 tg head2 (Some x) dl = Some (q', head', dl')"
      and c: "next_chain (buffer q') head'
          ((acc @ rev b) @ concat (map rev (takeWhile (due (buffer q2) tg) bs)))"
      and p: "bucket_path (buffer q') (queue q') (dropWhile (due (buffer q2) tg) bs) None"
      and dl': "dl' = (case dropWhile (due (buffer q2) tg) bs of [] \<Rightarrow> dl
             | b # _ \<Rightarrow> equeue_tickdiff (target (buffer q2 (hd b))) tg)"
      and o: "only_next q' q2"
      and f: "\<forall>a. a \<notin> set (acc @ rev b) \<union> set (concat (takeWhile (due (buffer q2) tg) bs)) \<longrightarrow>
           buffer q' a = buffer q2 a" by blast
    have d2: "due (buffer q2) tg = due ?h tg" using o2 by (rule due_only_next)
    have t2: "target (buffer q2 a) = target (?h a)" for a using o2 by (rule only_next_fields)
    have "only_next q' q" using o o2 by (rule only_next_trans)
    moreover have "\<forall>a. a \<notin> set acc \<union> set (concat (takeWhile (due ?h tg) (b # bs))) \<longrightarrow>
           buffer q' a = ?h a"
      using f f2 True by (auto simp: d2)
    ultimately show ?thesis
      using step run c p dl' True by (simp add: d2 t2 cong: list.case_cong)
  qed
qed

section \<open>Deadline order\<close>

lemma tickdiff_self: "equeue_tickdiff a a = 0"
  by (simp add: equeue_tickdiff_def)

lemma tickdiff_flip:
  assumes "\<not> equeue_tickdiff a b <s 0" and "a \<noteq> b"
  shows "equeue_tickdiff b a <s 0"
proof -
  let ?d = "a - b"
  have "0 \<le> sint ?d" using assms(1) by (simp add: equeue_tickdiff_def word_sless_alt)
  moreover have "?d \<noteq> 0" using assms(2) by simp
  then have "sint ?d \<noteq> 0" by (simp add: signed_eq_0_iff)
  ultimately have pos: "0 < sint ?d" by simp
  have "sint ?d < 2 ^ 31" using sint_lt [of ?d] by simp
  have "b - a = - ?d" by simp
  then have "sint (b - a) = signed_take_bit (LENGTH(32) - 1) (- sint ?d)"
    by (simp only: sint_word_minus)
  also have "\<dots> = - sint ?d" using pos \<open>sint ?d < 2 ^ 31\<close>
    by (simp add: signed_take_bit_int_eq_self)
  finally have "sint (b - a) < 0" using pos by simp
  then show ?thesis by (simp add: equeue_tickdiff_def word_sless_alt)
qed

lemma deadline_order_append:
  "deadline_order h (xs @ ys) \<longleftrightarrow> deadline_order h xs \<and> deadline_order h ys \<and>
     (xs = [] \<or> ys = [] \<or> equeue_tickdiff (target (h (last xs))) (target (h (hd ys))) \<le>s 0)"
proof (induction h xs rule: deadline_order.induct)
  case (1 h)
  then show ?case by simp
next
  case (2 h x)
  then show ?case by (cases ys) auto
next
  case (3 h x y xs)
  then show ?case by auto
qed

lemma deadline_order_uniform:
  assumes "\<And>x. x \<in> set xs \<Longrightarrow> target (h x) = t"
  shows "deadline_order h xs"
  using assms
proof (induction h xs rule: deadline_order.induct)
  case (3 h x y xs)
  then show ?case by (simp add: tickdiff_self)
qed simp_all

lemma uniform_target: "uniform h b \<Longrightarrow> x \<in> set b \<Longrightarrow> target (h x) = target (h (hd b))"
  by (simp add: uniform_def list_all_iff)

lemma uniform_rev_order: "uniform h b \<Longrightarrow> deadline_order h (rev b)"
  by (rule deadline_order_uniform [where t = "target (h (hd b))"]) (simp add: uniform_target)

lemma uniform_cong:
  assumes "uniform h b" and "\<And>x. x \<in> set b \<Longrightarrow> target (h' x) = target (h x)"
  shows "uniform h' b"
proof (cases b)
  case Nil
  then show ?thesis by (simp add: uniform_def)
next
  case (Cons a list)
  then have "hd b \<in> set b" by simp
  then have "target (h' (hd b)) = target (h (hd b))" by (rule assms(2))
  then show ?thesis using assms unfolding uniform_def list_all_iff by metis
qed

lemma queue_sorted_hd: "queue_sorted h (b # bs) \<Longrightarrow> uniform h b"
  by (cases bs) auto

lemma queue_sorted_tl: "queue_sorted h (b # bs) \<Longrightarrow> queue_sorted h bs"
  by (cases bs) auto

lemma drained_in_order:
  assumes "queue_sorted h bs" and "[] \<notin> set bs"
  shows "deadline_order h (concat (map rev bs))"
  using assms
proof (induction h bs rule: queue_sorted.induct)
  case (1 h)
  then show ?case by simp
next
  case (2 h b)
  then show ?case by (simp add: uniform_rev_order)
next
  case (3 h b c bs)
  have ub: "uniform h b" and uc: "uniform h c"
    and lt: "equeue_tickdiff (target (h (hd b))) (target (h (hd c))) <s 0"
    using "3.prems" by (auto dest: queue_sorted_hd)
  have b: "b \<noteq> []" and c: "c \<noteq> []" using "3.prems" by auto
  have 1: "deadline_order h (rev b)"
    using ub by (rule uniform_rev_order)
  have 2: "deadline_order h (concat (map rev (c # bs)))"
    using "3.prems" by (intro "3.IH") auto
  have "hd (concat (map rev (c # bs))) = last c" using c by (simp add: hd_rev)
  moreover have "target (h (last c)) = target (h (hd c))" using uc c by (intro uniform_target) auto
  moreover have "last (rev b) = hd b" using b by (simp add: last_rev)
  ultimately have 3: "equeue_tickdiff (target (h (last (rev b))))
      (target (h (hd (concat (map rev (c # bs)))))) \<le>s 0"
    using lt by (simp add: word_sless_alt word_sle_eq)
  have "deadline_order h (rev b @ concat (map rev (c # bs)))"
    unfolding deadline_order_append using 1 2 3 by blast
  then show ?case by simp
qed

lemma queue_sorted_prefix: "queue_sorted h (xs @ ys) \<Longrightarrow> queue_sorted h xs"
proof (induction xs)
  case Nil
  then show ?case by simp
next
  case (Cons b xs)
  show ?case
  proof (cases xs)
    case Nil
    then show ?thesis using Cons.prems queue_sorted_hd [of h b "xs @ ys"] by simp
  next
    case (Cons c cs)
    then have "queue_sorted h (b # c # (cs @ ys))" using Cons.prems by simp
    then have "uniform h b" "equeue_tickdiff (target (h (hd b))) (target (h (hd c))) <s 0"
      "queue_sorted h (xs @ ys)" using Cons by simp_all
    then show ?thesis using Cons.IH Cons by simp
  qed
qed

lemma queue_sorted_takeWhile: "queue_sorted h bs \<Longrightarrow> queue_sorted h (takeWhile P bs)"
  using queue_sorted_prefix [of h "takeWhile P bs" "dropWhile P bs"] by simp

lemma queue_sorted_cong:
  assumes "queue_sorted h bs" and "\<And>x. x \<in> set (concat bs) \<Longrightarrow> target (h' x) = target (h x)"
    and "[] \<notin> set bs"
  shows "queue_sorted h' bs"
  using assms
proof (induction h bs rule: queue_sorted.induct)
  case (1 h)
  then show ?case by simp
next
  case (2 h b)
  then show ?case by (auto intro: uniform_cong)
next
  case (3 h b c bs)
  have "queue_sorted h' (c # bs)" using "3.prems" by (intro "3.IH") auto
  moreover have "uniform h' b" using "3.prems" by (auto intro: uniform_cong)
  moreover have "target (h' (hd b)) = target (h (hd b))" "target (h' (hd c)) = target (h (hd c))"
    using "3.prems" by (cases b; cases c; auto)+
  ultimately show ?case using "3.prems" by simp
qed

lemma ins_bucket_hd:
  "bs \<noteq> [] \<Longrightarrow> hd (hd (ins_bucket h e tg bs)) = hd (hd bs) \<or> hd (hd (ins_bucket h e tg bs)) = e"
  by (cases bs) auto

lemma queue_sorted_Cons:
  assumes "uniform h b" and "queue_sorted h cs"
    and "cs \<noteq> [] \<Longrightarrow> equeue_tickdiff (target (h (hd b))) (target (h (hd (hd cs)))) <s 0"
  shows "queue_sorted h (b # cs)"
  using assms by (cases cs) auto

lemma ins_bucket_sorted:
  assumes "queue_sorted h bs" and "[] \<notin> set bs" and "e \<notin> set (concat bs)"
    and "target (h' e) = tg" and "\<And>x. x \<noteq> e \<Longrightarrow> target (h' x) = target (h x)"
  shows "queue_sorted h' (ins_bucket h e tg bs)"
  using assms(1-3)
proof (induction bs)
  case Nil
  then show ?case by (simp add: uniform_def)
next
  case (Cons b bs)
  note te = assms(4) and tx = assms(5)
  have b: "b \<noteq> []" "e \<notin> set b" using Cons.prems by auto
  then have hb: "hd b \<noteq> e" by (metis hd_in_set)
  have t: "target (h' (hd b)) = target (h (hd b))" using hb by (rule tx)
  have ub: "uniform h b" using Cons.prems(1) by (rule queue_sorted_hd)
  have rest: "queue_sorted h bs" using Cons.prems(1) by (rule queue_sorted_tl)
  have u: "uniform h' b"
  proof (rule uniform_cong [OF ub])
    fix x assume "x \<in> set b"
    then have "x \<noteq> e" using b by auto
    then show "target (h' x) = target (h x)" by (rule tx)
  qed
  have ue: "uniform h' [e]" by (simp add: uniform_def)
  have old: "queue_sorted h' (b # bs)"
  proof (rule queue_sorted_cong [OF Cons.prems(1)])
    fix x assume "x \<in> set (concat (b # bs))"
    then have "x \<noteq> e" using Cons.prems(3) by auto
    then show "target (h' x) = target (h x)" by (rule tx)
  next
    show "[] \<notin> set (b # bs)" using Cons.prems(2) .
  qed
  have nxt: "equeue_tickdiff (target (h (hd b))) (target (h (hd (hd bs)))) <s 0" if "bs \<noteq> []"
    using Cons.prems(1) that by (cases bs) auto
  show ?case
  proof (cases "equeue_tickdiff (target (h (hd b))) tg <s 0")
    case True
    have IH: "queue_sorted h' (ins_bucket h e tg bs)"
      using rest Cons.prems(2,3) by (intro Cons.IH) auto
    have "queue_sorted h' (b # ins_bucket h e tg bs)"
    proof (rule queue_sorted_Cons [OF u IH])
      show "equeue_tickdiff (target (h' (hd b))) (target (h' (hd (hd (ins_bucket h e tg bs))))) <s 0"
      proof (cases "bs = []")
        case True
        then show ?thesis using \<open>equeue_tickdiff (target (h (hd b))) tg <s 0\<close> t te by simp
      next
        case False
        then have "bs \<noteq> []" .
        have c: "hd bs \<noteq> []" "e \<notin> set (hd bs)" using Cons.prems(2,3) False by (cases bs; auto)+
        then have "hd (hd bs) \<noteq> e" by (metis hd_in_set)
        then have tc: "target (h' (hd (hd bs))) = target (h (hd (hd bs)))" by (rule tx)
        from ins_bucket_hd [OF False, of h e tg] show ?thesis
        proof
          assume "hd (hd (ins_bucket h e tg bs)) = hd (hd bs)"
          then show ?thesis using nxt [OF False] t tc by simp
        next
          assume "hd (hd (ins_bucket h e tg bs)) = e"
          then show ?thesis using True t te by simp
        qed
      qed
    qed
    then show ?thesis using True by simp
  next
    case False
    show ?thesis
    proof (cases "target (h (hd b)) = tg")
      case True
      have 1: "uniform h' (e # b)" using u t te True
        by (simp add: uniform_def)
      have 2: "queue_sorted h' bs" using old by (rule queue_sorted_tl)
      have 3: "equeue_tickdiff (target (h' (hd (e # b)))) (target (h' (hd (hd bs)))) <s 0"
        if "bs \<noteq> []"
      proof -
        have "equeue_tickdiff (target (h' (hd b))) (target (h' (hd (hd bs)))) <s 0"
          using old that by (cases bs) auto
        then show ?thesis using t te True by simp
      qed
      have "queue_sorted h' ((e # b) # bs)"
        using 1 2 3 by (rule queue_sorted_Cons)
      then show ?thesis using False True by simp
    next
      case ne: False
      have "equeue_tickdiff tg (target (h (hd b))) <s 0" using False ne by (rule tickdiff_flip)
      then have "equeue_tickdiff (target (h' (hd [e]))) (target (h' (hd (hd (b # bs))))) <s 0"
        using t te by simp
      with ue old have "queue_sorted h' ([e] # b # bs)"
        by (rule queue_sorted_Cons)
      then show ?thesis using False ne by simp
    qed
  qed
qed

section \<open>Taking a chunk from the free list\<close>

lemma take_fit_split:
  "take_fit h sz cs = takeWhile (too_small h sz) cs @
     (case dropWhile (too_small h sz) cs of [] \<Rightarrow> []
      | b # bs \<Rightarrow> if tl b = [] then bs else tl b # bs)"
  by (induction cs) (auto simp: too_small_def)

lemma find_fits:
  "List.find (fits h sz) cs = (case dropWhile (too_small h sz) cs of [] \<Rightarrow> None | b # _ \<Rightarrow> Some b)"
  by (induction cs) (auto simp: too_small_def fits_def)

lemma mem_alloc_walk_path:
  assumes "bucket_path (buffer q) (slot_get q p) cs None"
  shows "\<exists>p'. mem_alloc_walk q sz p = mem_alloc_walk q sz p' \<and>
     bucket_path (buffer q) (slot_get q p) (takeWhile (too_small (buffer q) sz) cs) (slot_get q p') \<and>
     bucket_path (buffer q) (slot_get q p') (dropWhile (too_small (buffer q) sz) cs) None \<and>
     p' = (if takeWhile (too_small (buffer q) sz) cs = [] then p
           else NextSlot (hd (last (takeWhile (too_small (buffer q) sz) cs))))"
  using assms
proof (induction cs arbitrary: p)
  case Nil
  then show ?case by simp
next
  case (Cons b cs)
  from Cons.prems obtain x xs where b: "b = x # xs" by (cases b) auto
  with Cons.prems have p: "slot_get q p = Some x"
    and s: "sib_chain (buffer q) (sibling (buffer q x)) xs"
    and t: "bucket_path (buffer q) (slot_get q (NextSlot x)) cs None" by auto
  show ?case
  proof (cases "too_small (buffer q) sz b")
    case True
    from Cons.IH [OF t] obtain p' where
      w: "mem_alloc_walk q sz (NextSlot x) = mem_alloc_walk q sz p'"
      and a: "bucket_path (buffer q) (slot_get q (NextSlot x))
           (takeWhile (too_small (buffer q) sz) cs) (slot_get q p')"
      and d: "bucket_path (buffer q) (slot_get q p') (dropWhile (too_small (buffer q) sz) cs) None"
      and e: "p' = (if takeWhile (too_small (buffer q) sz) cs = [] then NextSlot x
           else NextSlot (hd (last (takeWhile (too_small (buffer q) sz) cs))))" by blast
    have "mem_alloc_walk q sz p = mem_alloc_walk q sz (NextSlot x)"
      using True p b by (subst mem_alloc_walk.simps) (simp add: too_small_def)
    then have "mem_alloc_walk q sz p = mem_alloc_walk q sz p'" using w by simp
    then show ?thesis using True a d e p s b by auto
  next
    case False
    then show ?thesis using Cons.prems by auto
  qed
qed

lemma sib_chain_head: "sib_chain h p (x # xs) \<Longrightarrow> p = Some x"
  by simp

lemma mem_alloc_walk_correct:
  assumes B: "buckets (buffer q) (chunks q) cs"
  shows "case List.find (fits (buffer q) sz) cs of
      None \<Rightarrow> mem_alloc_walk q sz ChunksSlot = Some (q, None)
    | Some b \<Rightarrow>
        (\<exists>q'. mem_alloc_walk q sz ChunksSlot = Some (q', Some (hd b)) \<and>
           buckets (buffer q') (chunks q') (take_fit (buffer q) sz cs) \<and>
           slab_size q' = slab_size q \<and> slab_data q' = slab_data q \<and> queue q' = queue q \<and>
           calls q' = calls q \<and> npw2 q' = npw2 q \<and> breaks q' = breaks q \<and>
           (\<forall>a. same_data (buffer q' a) (buffer q a) \<and> ref (buffer q' a) = ref (buffer q a) \<and>
                sibling (buffer q' a) = sibling (buffer q a)) \<and>
           (\<forall>a. a \<notin> set (concat cs) \<longrightarrow> buffer q' a = buffer q a))"
proof -
  let ?h = "buffer q"
  let ?P = "too_small ?h sz"
  define pre where "pre = takeWhile ?P cs"
  define post where "post = dropWhile ?P cs"
  have cs: "cs = pre @ post" by (simp add: pre_def post_def)
  have bp: "bucket_path ?h (chunks q) cs None" and dist: "distinct (concat cs)"
    using B by (simp_all add: buckets_def)
  have ne: "[] \<notin> set cs" using bp by (rule bucket_path_nonempty)
  have "\<exists>p'. mem_alloc_walk q sz ChunksSlot = mem_alloc_walk q sz p' \<and>
      bucket_path ?h (chunks q) pre (slot_get q p') \<and> bucket_path ?h (slot_get q p') post None \<and>
      p' = (if pre = [] then ChunksSlot else NextSlot (hd (last pre)))"
    unfolding pre_def post_def using mem_alloc_walk_path [of q ChunksSlot cs sz] bp by simp
  then obtain p' where
    w: "mem_alloc_walk q sz ChunksSlot = mem_alloc_walk q sz p'"
    and a: "bucket_path ?h (chunks q) pre (slot_get q p')"
    and d: "bucket_path ?h (slot_get q p') post None"
    and p': "p' = (if pre = [] then ChunksSlot else NextSlot (hd (last pre)))"
    by blast
  have fd: "List.find (fits ?h sz) cs = (case post of [] \<Rightarrow> None | b # _ \<Rightarrow> Some b)"
    by (simp add: find_fits post_def)
  show ?thesis
  proof (cases post)
    case Nil
    then have "slot_get q p' = None" using d by simp
    then have "mem_alloc_walk q sz p' = Some (q, None)"
      by (subst mem_alloc_walk.simps) simp
    then show ?thesis using w fd Nil by simp
  next
    case (Cons b rest)
    have nepre: "[] \<notin> set pre" and nep: "[] \<notin> set post" using ne cs by auto
    then obtain x xs where b: "b = x # xs" using Cons by (cases b) auto
    from d Cons b have g: "slot_get q p' = Some x"
      and sc: "sib_chain ?h (sibling (?h x)) xs"
      and r: "bucket_path ?h (next (?h x)) rest None" by auto
    have fit: "sz \<le> size_ev (?h x)"
    proof -
      have "\<not> ?P (hd post)" unfolding post_def
        by (rule hd_dropWhile) (use Cons post_def in auto)
      then show ?thesis using Cons b by (simp add: too_small_def)
    qed
    have l_in: "pre \<noteq> [] \<Longrightarrow> hd (last pre) \<in> set (concat pre)"
      using nepre by (intro hd_last_in_concat) auto
    have disj: "set (concat pre) \<inter> set (concat post) = {}"
      and dpre: "distinct (concat pre)" and dpost: "distinct (concat post)"
      using dist cs by auto
    have x_post: "x \<in> set (concat post)" using Cons b by simp
    have l_x: "pre \<noteq> [] \<Longrightarrow> hd (last pre) \<noteq> x" using l_in x_post disj by (meson disjoint_iff)
    define n where "n = (case xs of [] \<Rightarrow> next (?h x) | s # _ \<Rightarrow> Some s)"
    define q' where "q' = (case xs of [] \<Rightarrow> slot_set p' (next (?h x)) q
       | s # _ \<Rightarrow> slot_set (NextSlot s) (next (?h x)) (slot_set p' (Some s) q))"
    have run: "mem_alloc_walk q sz p' = Some (q', Some x)"
    proof (cases xs)
      case Nil
      then show ?thesis using g fit sc by (subst mem_alloc_walk.simps) (simp add: q'_def)
    next
      case (Cons s xs')
      then have "sibling (?h x) = Some s" using sc by simp
      then show ?thesis using g fit l_x p' Cons
        by (subst mem_alloc_walk.simps) (cases "pre = []"; simp add: q'_def Let_def)
    qed
    let ?h' = "buffer q'"
    let ?mid = "if xs = [] then rest else xs # rest"
    have s_in: "set xs \<subseteq> set (concat post)" using Cons b by auto
    have s_l: "pre \<noteq> [] \<Longrightarrow> hd (last pre) \<notin> set xs" using l_in s_in disj by (meson disjoint_iff subsetD)
    have sib: "sibling (?h' a) = sibling (?h a)" for a
      using p' by (cases xs; cases "pre = []") (auto simp: q'_def)
    have nxt: "next (?h' a) = next (?h a)"
      if "pre \<noteq> [] \<Longrightarrow> a \<noteq> hd (last pre)" "xs \<noteq> [] \<Longrightarrow> a \<noteq> hd xs" for a
      using that p' by (cases xs; cases "pre = []") (auto simp: q'_def)
    have first: "bucket_path ?h' (chunks q') pre n"
    proof (cases "pre = []")
      case True
      then show ?thesis using p' by (cases xs) (simp_all add: q'_def n_def)
    next
      case False
      have c: "chunks q' = chunks q" using False p' by (cases xs) (simp_all add: q'_def)
      have "bucket_path ?h' (chunks q) pre n"
      proof (rule bucket_path_upd [OF a])
        fix y assume "y \<in> set (concat pre)"
        show "sibling (?h' y) = sibling (?h y)" by (rule sib)
      next
        fix c assume c: "c \<in> set (butlast pre)"
        then have cp: "c \<in> set pre" by (rule in_set_butlastD)
        then have "c \<noteq> []" using nepre by auto
        have 1: "hd c \<noteq> hd (last pre)" using dpre nepre c by (rule butlast_heads_differ)
        have "hd c \<in> set (concat pre)" using cp \<open>c \<noteq> []\<close> by (rule hd_in_concat)
        then have "hd c \<notin> set xs" using s_in disj by (meson disjoint_iff subsetD)
        then have 2: "xs \<noteq> [] \<Longrightarrow> hd c \<noteq> hd xs" by (metis hd_in_set)
        show "next (?h' (hd c)) = next (?h (hd c))" using 1 2 by (intro nxt) auto
      next
        have "xs \<noteq> [] \<Longrightarrow> hd (last pre) \<noteq> hd xs" using s_l False by (metis hd_in_set)
        then show "next (?h' (hd (last pre))) = n" using False p'
          by (cases xs) (auto simp: q'_def n_def)
      next
        assume "pre = []" then show "n = slot_get q p'" using False by simp
      qed
      then show ?thesis using c by simp
    qed
    have rest_ok: "bucket_path ?h' (next (?h x)) rest None"
    proof (rule bucket_path_cong [OF r])
      fix y assume "y \<in> set (concat rest)"
      show "sibling (?h' y) = sibling (?h y)" by (rule sib)
    next
      fix c assume c: "c \<in> set rest"
      then have "c \<noteq> []" using nep Cons by auto
      have i: "hd c \<in> set (concat rest)" using c \<open>c \<noteq> []\<close> by (rule hd_in_concat)
      then have ip: "hd c \<in> set (concat post)" using Cons by simp
      have 1: "hd c \<noteq> hd (last pre)" if "pre \<noteq> []"
        using l_in [OF that] ip disj by (metis disjoint_iff)
      have "set b \<inter> set (concat rest) = {}" using dpost Cons by simp
      then have "hd c \<notin> set xs" using i b by auto
      then have 2: "xs \<noteq> [] \<Longrightarrow> hd c \<noteq> hd xs" by (metis hd_in_set)
      show "next (?h' (hd c)) = next (?h (hd c))" using 1 2 by (intro nxt) auto
    qed
    have second: "bucket_path ?h' n ?mid None"
    proof (cases xs)
      case Nil
      then show ?thesis using rest_ok by (simp add: n_def)
    next
      case (Cons s xs')
      have "sib_chain ?h' (sibling (?h' s)) xs'"
      proof -
        have "sib_chain ?h' (sibling (?h s)) xs' = sib_chain ?h (sibling (?h s)) xs'"
          by (intro sib_chain_cong sib)
        then show ?thesis using sc Cons by (simp add: sib)
      qed
      moreover have "next (?h' s) = next (?h x)"
        using Cons p' s_l by (cases "pre = []") (auto simp: q'_def)
      ultimately show ?thesis using Cons rest_ok by (simp add: n_def)
    qed
    have tf: "take_fit ?h sz cs = pre @ ?mid"
      using Cons b by (simp add: take_fit_split pre_def [symmetric] post_def [symmetric])
    have "bucket_path ?h' (chunks q') (pre @ ?mid) None"
      unfolding bucket_path_append using first second by blast
    moreover have "distinct (concat (pre @ ?mid))"
      using dist cs Cons b by auto
    ultimately have "buckets ?h' (chunks q') (take_fit ?h sz cs)"
      unfolding tf buckets_def by simp
    moreover have "\<forall>a. same_data (?h' a) (?h a) \<and> ref (?h' a) = ref (?h a) \<and>
        sibling (?h' a) = sibling (?h a)"
      using p' by (cases xs; cases "pre = []") (auto simp: q'_def same_data_def)
    moreover have "\<forall>a. a \<notin> set (concat cs) \<longrightarrow> ?h' a = ?h a"
    proof (intro allI impI)
      fix a assume A: "a \<notin> set (concat cs)"
      then have 1: "pre \<noteq> [] \<Longrightarrow> a \<noteq> hd (last pre)" using l_in cs by auto
      have "a \<notin> set xs" using A s_in cs by auto
      then have 2: "xs \<noteq> [] \<Longrightarrow> a \<noteq> hd xs" by (metis hd_in_set)
      show "?h' a = ?h a" using 1 2 p' by (cases xs; cases "pre = []") (auto simp: q'_def)
    qed
    moreover have "slab_size q' = slab_size q \<and> slab_data q' = slab_data q \<and> queue q' = queue q \<and>
           calls q' = calls q \<and> npw2 q' = npw2 q \<and> breaks q' = breaks q"
      using p' by (cases xs; cases "pre = []") (auto simp: q'_def)
    ultimately show ?thesis using w run fd Cons b by simp
  qed
qed

section \<open>Rounding the requested size\<close>

lemma and_not_3: "(w :: 32 word) AND NOT 3 = push_bit 2 (drop_bit 2 w)"
proof -
  have "w AND NOT (mask 2) = push_bit 2 (drop_bit 2 w)"
  proof (rule bit_word_eqI)
    fix n assume "n < LENGTH(32)"
    show "bit (w AND NOT (mask 2)) n \<longleftrightarrow> bit (push_bit 2 (drop_bit 2 w)) n"
    proof (cases "2 \<le> n")
      case True
      then have "2 + (n - 2) = n" by simp
      then show ?thesis using True by (auto simp: bit_simps)
    next
      case False
      then show ?thesis by (simp add: bit_simps)
    qed
  qed
  moreover have "mask 2 = (3 :: 32 word)" by (simp add: mask_eq_exp_minus_1)
  ultimately show ?thesis by simp
qed

lemma unat_and_not_3: "unat ((w :: 32 word) AND NOT 3) = unat w div 4 * 4"
proof -
  have "unat (drop_bit 2 w) = unat w div 4"
    by (simp add: drop_bit_eq_div unat_div)
  moreover have "unat w < 2 ^ 32" using unsigned_less [of w] by simp
  then have "unat w div 4 * 4 < 2 ^ 32" by simp
  ultimately show ?thesis
    unfolding and_not_3
    by (subst unsigned_push_bit_eq) (simp add: push_bit_eq_mult take_bit_nat_eq_self)
qed

lemma mem_size_round:
  assumes "unat sz + unat hdr + 3 < 2 ^ 32"
  shows "unat (mem_size hdr sz) = (unat sz + unat hdr + 3) div 4 * 4"
proof -
  have "unat (sz + hdr + 3) = unat sz + unat hdr + 3"
    using assms by (simp add: unat_word_ariths)
  moreover have "mem_size hdr sz = (sz + hdr + 3) AND NOT 3" by (simp add: mem_size_def)
  ultimately show ?thesis by (simp only: unat_and_not_3)
qed

section \<open>Posting with a negative delay\<close>

lemma put_free_cong:
  "(\<And>a. size_ev (h' a) = size_ev (h a)) \<Longrightarrow> put_free h' e cs = put_free h e cs"
  by (induction cs) auto

lemma buckets_frame:
  assumes "buckets h p bs" and "\<And>x. x \<in> set (concat bs) \<Longrightarrow> h' x = h x"
  shows "buckets h' p bs"
  using assms bucket_path_frame [of h p bs None h'] by (simp add: buckets_def)

lemma buckets_links:
  assumes "buckets h p bs"
    and "\<And>x. sibling (h' x) = sibling (h x)" and "\<And>x. next (h' x) = next (h x)"
  shows "buckets h' p bs"
  using assms bucket_path_cong [of h p bs None h'] by (simp add: buckets_def)

lemma dealloc_correct:
  assumes B: "buckets (buffer q) (chunks q) cs" and E: "e \<notin> set (concat cs)"
  shows "\<exists>q'. equeue_dealloc q e = Some q' \<and>
     buckets (buffer q') (chunks q') (put_free (buffer q) e cs) \<and>
     queue q' = queue q \<and>
     calls q' = calls q @ (case dtor (buffer q e) of None \<Rightarrow> [] | Some d \<Rightarrow> [Dtor d e]) \<and>
     npw2 q' = npw2 q \<and>
     (\<forall>a. same_data (buffer q' a) (buffer q a)) \<and>
     (\<forall>a. a \<notin> set (concat cs) \<and> a \<noteq> e \<longrightarrow> buffer q' a = buffer q a)"
proof -
  define q1 where "q1 = (case dtor (buffer q e) of None \<Rightarrow> q
        | Some d \<Rightarrow> q\<lparr>calls := calls q @ [Dtor d e]\<rparr>)"
  have b1: "buffer q1 = buffer q" and c1: "chunks q1 = chunks q" and u1: "queue q1 = queue q"
    and n1: "npw2 q1 = npw2 q"
    and l1: "calls q1 = calls q @ (case dtor (buffer q e) of None \<Rightarrow> [] | Some d \<Rightarrow> [Dtor d e])"
    by (simp_all add: q1_def split: option.splits)
  have "buckets (buffer q1) (chunks q1) cs" using B by (simp add: b1 c1)
  from mem_dealloc_correct [OF this E] obtain q' where
    r: "equeue_mem_dealloc q1 e = Some q'"
    and p: "buckets (buffer q') (chunks q') (put_free (buffer q1) e cs)"
    and f: "queue q' = queue q1" "calls q' = calls q1" "npw2 q' = npw2 q1"
    and s: "\<forall>a. same_data (buffer q' a) (buffer q1 a) \<and> ref (buffer q' a) = ref (buffer q1 a)"
    and fr: "\<forall>a. a \<notin> set (concat cs) \<and> a \<noteq> e \<longrightarrow> buffer q' a = buffer q1 a"
    by blast
  have 1: "equeue_dealloc q e = Some q'"
    unfolding equeue_dealloc_def q1_def [symmetric] by (rule r)
  have 2: "\<forall>a. same_data (buffer q' a) (buffer q a)" using s by (simp add: b1)
  have 3: "\<forall>a. a \<notin> set (concat cs) \<and> a \<noteq> e \<longrightarrow> buffer q' a = buffer q a"
    using fr by (simp add: b1)
  have 4: "buckets (buffer q') (chunks q') (put_free (buffer q) e cs)"
    using p by (simp add: b1)
  have 5: "queue q' = queue q" using f(1) u1 by simp
  have 6: "calls q' = calls q @ (case dtor (buffer q e) of None \<Rightarrow> [] | Some d \<Rightarrow> [Dtor d e])"
    using f(2) l1 by simp
  have 7: "npw2 q' = npw2 q" using f(3) n1 by simp
  show ?thesis
    by (intro exI [of _ q'] conjI 1 2 3 4 5 6 7)
qed



section \<open>Retiring a dispatched event\<close>

text \<open>
  C3 as stated fails: in the run \<open>null_callback_in_flight\<close> the event at offset 0 is in
  flight with a null callback and period 10. Firing calls nothing, and the retire step
  re-enqueues the event (generation 1 again, deadline 20, nothing freed).
\<close>

theorem retire_ignores_null_callback:
  "case null_callback_in_flight of None \<Rightarrow> False
   | Some q \<Rightarrow>
       cb (buffer q 0) = None \<and> 0 \<le>s period (buffer q 0) \<and> id_ev (buffer q 0) = - 1 \<and>
       queue q = None \<and> chunks q = None \<and>
       (case dispatch_retire (dispatch_fire q 0) 0 10 of None \<Rightarrow> False
        | Some q' \<Rightarrow>
            queue q' = Some 0 \<and> id_ev (buffer q' 0) = 1 \<and> target (buffer q' 0) = 20 \<and>
            chunks q' = None \<and> calls q' = [])"
  by code_simp

text \<open>
  C3, amended: on a well-formed queue and free list, for an event \<open>e\<close> on neither, firing
  and retiring \<open>e\<close> returns; if the period is not negative (whatever the callback), the id
  is un-negated, the event is inserted with deadline \<open>now + period\<close> and the free list is
  as before; otherwise the generation of the un-negated id is bumped, the destructor (if
  any) runs, the chunk joins the free list and the queue is as before.
\<close>

theorem retire_by_period:
  assumes Q: "buckets (buffer q) (queue q) bs" and C: "buckets (buffer q) (chunks q) cs"
    and eq: "e \<notin> set (concat bs)" and ec: "e \<notin> set (concat cs)"
    and disj: "set (concat bs) \<inter> set (concat cs) = {}"
  shows "\<exists>q'. dispatch_retire (dispatch_fire q e) e now = Some q' \<and>
     (if 0 \<le>s period (buffer q e)
      then id_ev (buffer q' e) = - id_ev (buffer q e) \<and>
           target (buffer q' e) = now + period (buffer q e) \<and>
           buckets (buffer q') (queue q') (ins_bucket (buffer q) e (now + period (buffer q e)) bs) \<and>
           buckets (buffer q') (chunks q') cs \<and>
           calls q' = calls q @ (case cb (buffer q e) of None \<Rightarrow> [] | Some f \<Rightarrow> [Cb f e])
      else id_ev (buffer q' e) = equeue_incid q (- id_ev (buffer q e)) \<and>
           buckets (buffer q') (queue q') bs \<and>
           buckets (buffer q') (chunks q') (put_free (buffer q) e cs) \<and>
           calls q' = calls q @ (case cb (buffer q e) of None \<Rightarrow> [] | Some f \<Rightarrow> [Cb f e]) @
             (case dtor (buffer q e) of None \<Rightarrow> [] | Some d \<Rightarrow> [Dtor d e]))"
proof -
  define qf where "qf = dispatch_fire q e"
  have bf: "buffer qf = buffer q" and uf: "queue qf = queue q" and cf: "chunks qf = chunks q"
    and nf: "npw2 qf = npw2 q"
    and lf: "calls qf = calls q @ (case cb (buffer q e) of None \<Rightarrow> [] | Some f \<Rightarrow> [Cb f e])"
    by (simp_all add: qf_def dispatch_fire_def split: option.splits)
  have incid: "equeue_incid qf i = equeue_incid q i" for i
    by (simp add: equeue_incid_def nf)
  show ?thesis
  proof (cases "0 \<le>s period (buffer q e)")
    case True
    let ?q1 = "upd e (\<lambda>x. x\<lparr>id_ev := - id_ev (buffer qf e)\<rparr>) qf"
    have Q1: "buckets (buffer ?q1) (queue ?q1) bs"
      by (rule buckets_links [of "buffer q"]) (use Q in \<open>simp_all add: bf uf\<close>)
    from enqueue_correct [OF Q1 eq, of now "period (buffer ?q1 e)"] obtain q' where
      r: "equeue_enqueue ?q1 e now (period (buffer ?q1 e)) = Some q'"
      and b: "buckets (buffer q') (queue q')
          (ins_bucket (buffer ?q1) e (now + period (buffer ?q1 e)) bs)"
      and t: "target (buffer q' e) = now + period (buffer ?q1 e)"
      and i: "id_ev (buffer q' e) = id_ev (buffer ?q1 e)"
      and c: "chunks q' = chunks ?q1" and l: "calls q' = calls ?q1"
      and fr: "\<forall>a. a \<notin> set (concat bs) \<and> a \<noteq> e \<longrightarrow> buffer q' a = buffer ?q1 a"
      by blast
    have p1: "period (buffer ?q1 e) = period (buffer q e)" by (simp add: bf)
    have 1: "dispatch_retire qf e now = Some q'"
      using True r by (simp add: dispatch_retire_def bf Let_def)
    have 2: "id_ev (buffer q' e) = - id_ev (buffer q e)" using i by (simp add: bf)
    have 3: "target (buffer q' e) = now + period (buffer q e)" using t by (simp add: bf)
    have "ins_bucket (buffer ?q1) e (now + period (buffer q e)) bs =
        ins_bucket (buffer q) e (now + period (buffer q e)) bs"
      by (rule ins_bucket_cong) (simp add: bf)
    then have 4: "buckets (buffer q') (queue q')
        (ins_bucket (buffer q) e (now + period (buffer q e)) bs)"
      using b by (simp only: p1)
    have 5: "buckets (buffer q') (chunks q') cs"
    proof (rule buckets_frame [of "buffer q"])
      show "buckets (buffer q) (chunks q') cs" using C c by (simp add: cf)
      fix x assume x: "x \<in> set (concat cs)"
      then have "x \<notin> set (concat bs)" using disj by (meson disjoint_iff)
      moreover have "x \<noteq> e" using x ec by auto
      ultimately have "buffer q' x = buffer ?q1 x" using fr by blast
      then show "buffer q' x = buffer q x" using \<open>x \<noteq> e\<close> by (simp add: bf)
    qed
    have 6: "calls q' = calls q @ (case cb (buffer q e) of None \<Rightarrow> [] | Some f \<Rightarrow> [Cb f e])"
      using l lf by simp
    show ?thesis
      unfolding qf_def [symmetric] using True
      by (simp only: if_True) (intro exI [of _ q'] conjI 1 2 3 4 5 6)
  next
    case False
    let ?q1 = "upd e (\<lambda>x. x\<lparr>id_ev := equeue_incid qf (- id_ev (buffer qf e))\<rparr>) qf"
    have C1: "buckets (buffer ?q1) (chunks ?q1) cs"
      by (rule buckets_links [of "buffer q"]) (use C in \<open>simp_all add: bf cf\<close>)
    from dealloc_correct [OF C1 ec] obtain q' where
      r: "equeue_dealloc ?q1 e = Some q'"
      and b: "buckets (buffer q') (chunks q') (put_free (buffer ?q1) e cs)"
      and u: "queue q' = queue ?q1"
      and l: "calls q' = calls ?q1 @ (case dtor (buffer ?q1 e) of None \<Rightarrow> [] | Some d \<Rightarrow> [Dtor d e])"
      and s: "\<forall>a. same_data (buffer q' a) (buffer ?q1 a)"
      and fr: "\<forall>a. a \<notin> set (concat cs) \<and> a \<noteq> e \<longrightarrow> buffer q' a = buffer ?q1 a"
      by blast
    have 1: "dispatch_retire qf e now = Some q'"
      using False r by (simp add: dispatch_retire_def bf Let_def)
    have "same_data (buffer q' e) (buffer ?q1 e)" using s by blast
    then have 2: "id_ev (buffer q' e) = equeue_incid q (- id_ev (buffer q e))"
      by (simp add: same_data_def bf incid)
    have 3: "buckets (buffer q') (queue q') bs"
    proof (rule buckets_frame [of "buffer q"])
      show "buckets (buffer q) (queue q') bs" using Q u by (simp add: uf)
      fix x assume x: "x \<in> set (concat bs)"
      then have "x \<notin> set (concat cs)" using disj by (meson disjoint_iff)
      moreover have "x \<noteq> e" using x eq by auto
      ultimately have "buffer q' x = buffer ?q1 x" using fr by blast
      then show "buffer q' x = buffer q x" using \<open>x \<noteq> e\<close> by (simp add: bf)
    qed
    have "put_free (buffer ?q1) e cs = put_free (buffer q) e cs"
      by (rule put_free_cong) (simp add: bf)
    then have 4: "buckets (buffer q') (chunks q') (put_free (buffer q) e cs)"
      using b by (simp only:)
    have 5: "calls q' = calls q @ (case cb (buffer q e) of None \<Rightarrow> [] | Some f \<Rightarrow> [Cb f e]) @
             (case dtor (buffer q e) of None \<Rightarrow> [] | Some d \<Rightarrow> [Dtor d e])"
      using l lf by (simp add: bf)
    show ?thesis
      unfolding qf_def [symmetric] using False
      by (simp only: if_False) (intro exI [of _ q'] conjI 1 2 3 4 5)
  qed
qed

theorem retire_by_period_witness:
  "case busy_in_flight of None \<Rightarrow> False
   | Some q \<Rightarrow>
       buckets (buffer q) (queue q) [[0]] \<and> buckets (buffer q) (chunks q) [[72]] \<and>
       0 \<le>s period (buffer q 36) \<and> id_ev (buffer q 36) = - 1 \<and>
       (case dispatch_retire (dispatch_fire q 36) 36 10 of None \<Rightarrow> False
        | Some q' \<Rightarrow>
            id_ev (buffer q' 36) = 1 \<and> target (buffer q' 36) = 20 \<and>
            buckets (buffer q') (queue q') [[36], [0]] \<and>
            buckets (buffer q') (chunks q') [[72]] \<and> calls q' = [Cb 2 36])"
proof -
  have "case busy_in_flight of None \<Rightarrow> False
     | Some q \<Rightarrow>
       buckets (buffer q) (queue q) [[0]] \<and> buckets (buffer q) (chunks q) [[72]] \<and>
       0 \<le>s period (buffer q 36) \<and> id_ev (buffer q 36) = - 1 \<and> period (buffer q 36) = 10 \<and>
       cb (buffer q 36) = Some 2 \<and> calls q = [] \<and>
       ins_bucket (buffer q) 36 (10 + 10) [[0]] = [[36], [0]]"
    by code_simp
  then obtain q where q: "busy_in_flight = Some q"
    and Q: "buckets (buffer q) (queue q) [[0]]" and C: "buckets (buffer q) (chunks q) [[72]]"
    and v: "0 \<le>s period (buffer q 36)" "id_ev (buffer q 36) = - 1" "period (buffer q 36) = 10"
      "cb (buffer q 36) = Some 2" "calls q = []"
    and I: "ins_bucket (buffer q) 36 (10 + 10) [[0]] = [[36], [0]]"
    by (auto elim!: option_case_SomeE)
  have e: "36 \<notin> set (concat [[0 :: addr]])" "36 \<notin> set (concat [[72 :: addr]])"
    and d: "set (concat [[0 :: addr]]) \<inter> set (concat [[72 :: addr]]) = {}"
    by simp_all
  from retire_by_period [OF Q C e d, of 10] v(1) obtain q' where
    r: "dispatch_retire (dispatch_fire q 36) 36 10 = Some q'"
    and 1: "id_ev (buffer q' 36) = - id_ev (buffer q 36)"
    and 2: "target (buffer q' 36) = 10 + period (buffer q 36)"
    and 3: "buckets (buffer q') (queue q') (ins_bucket (buffer q) 36 (10 + period (buffer q 36)) [[0]])"
    and 4: "buckets (buffer q') (chunks q') [[72]]"
    and 5: "calls q' = calls q @ (case cb (buffer q 36) of None \<Rightarrow> [] | Some f \<Rightarrow> [Cb f 36])"
    by auto
  have 1: "id_ev (buffer q' 36) = 1" using 1 v by simp
  have 2: "target (buffer q' 36) = 20" using 2 v by simp
  have 3: "buckets (buffer q') (queue q') [[36], [0]]" using 3 unfolding v(3) I .
  have 5: "calls q' = [Cb 2 36]" using 5 v by simp
  show ?thesis unfolding q using Q C v r 1 2 3 4 5 by simp
qed

section \<open>First in, first out within a bucket\<close>

lemma distinct_concat_dropWhile: "distinct (concat bs) \<Longrightarrow> distinct (concat (dropWhile P bs))"
proof -
  assume d: "distinct (concat bs)"
  have "concat bs = concat (takeWhile P bs) @ concat (dropWhile P bs)"
    by (metis concat_append takeWhile_dropWhile_id)
  then show ?thesis using d by (metis distinct_append)
qed

lemma dequeue_correct:
  assumes B: "buckets (buffer q) (queue q) bs"
  shows "\<exists>q' head dl. equeue_dequeue q now d0 = Some (q', head, dl) \<and>
       next_chain (buffer q') head (concat (map rev (takeWhile (due (buffer q) now) bs))) \<and>
       buckets (buffer q') (queue q') (dropWhile (due (buffer q) now) bs) \<and>
       (\<forall>a. target (buffer q' a) = target (buffer q a))"
proof -
  have bp: "bucket_path (buffer q) (queue q) bs None" and dist: "distinct (concat bs)"
    using B by (simp_all add: buckets_def)
  have "\<exists>q1 head dl. dequeue_loop q now None None d0 = Some (q1, head, dl) \<and>
      next_chain (buffer q1) head ([] @ concat (map rev (takeWhile (due (buffer q) now) bs))) \<and>
      bucket_path (buffer q1) (queue q1) (dropWhile (due (buffer q) now) bs) None \<and>
      dl = (case dropWhile (due (buffer q) now) bs of [] \<Rightarrow> d0
             | b # _ \<Rightarrow> equeue_tickdiff (target (buffer q (hd b))) now) \<and>
      only_next q1 q \<and>
      (\<forall>a. a \<notin> set [] \<union> set (concat (takeWhile (due (buffer q) now) bs)) \<longrightarrow>
           buffer q1 a = buffer q a)"
    by (rule dequeue_loop_correct [OF bp dist]) simp_all
  then obtain q1 head dl where
    r: "dequeue_loop q now None None d0 = Some (q1, head, dl)"
    and c: "next_chain (buffer q1) head (concat (map rev (takeWhile (due (buffer q) now) bs)))"
    and p: "bucket_path (buffer q1) (queue q1) (dropWhile (due (buffer q) now) bs) None"
    and o: "only_next q1 q" by auto
  define q' where "q' = (case queue q1 of None \<Rightarrow> q1
       | Some a \<Rightarrow> upd a (\<lambda>x. x\<lparr>ref := QueueSlot\<rparr>) q1)"
  have nx: "next (buffer q' a) = next (buffer q1 a)"
    and sb: "sibling (buffer q' a) = sibling (buffer q1 a)"
    and tg: "target (buffer q' a) = target (buffer q1 a)" for a
    by (simp_all add: q'_def split: option.splits)
  have qq: "queue q' = queue q1" by (simp add: q'_def split: option.splits)
  have 1: "equeue_dequeue q now d0 = Some (q', head, dl)"
    using r by (simp add: equeue_dequeue_def q'_def)
  have "next_chain (buffer q') head (concat (map rev (takeWhile (due (buffer q) now) bs))) =
      next_chain (buffer q1) head (concat (map rev (takeWhile (due (buffer q) now) bs)))"
    by (rule next_chain_cong) (rule nx)
  then have 2: "next_chain (buffer q') head (concat (map rev (takeWhile (due (buffer q) now) bs)))"
    using c by simp
  have "bucket_path (buffer q') (queue q1) (dropWhile (due (buffer q) now) bs) None"
    by (rule bucket_path_cong [OF p]) (simp_all add: nx sb)
  then have 3: "buckets (buffer q') (queue q') (dropWhile (due (buffer q) now) bs)"
    using dist by (simp add: buckets_def qq distinct_concat_dropWhile)
  have 4: "\<forall>a. target (buffer q' a) = target (buffer q a)"
    using o by (simp add: tg only_next_fields)
  show ?thesis by (intro exI [of _ q'] exI [of _ head] exI [of _ dl] conjI 1 2 3 4)
qed

lemma deadline_order_cong:
  "(\<And>a. target (h' a) = target (h a)) \<Longrightarrow> deadline_order h' xs = deadline_order h xs"
  by (induction h xs rule: deadline_order.induct) simp_all

text \<open>
  On a well-formed queue whose buckets are \<open>bs\<close>, each listed from its head (the
  newest member) on. \<^verbatim>\<open>equeue_dequeue\<close> returns; the drained list, read through \<open>next\<close>
  from the returned head, is the due buckets in queue order, each one reversed; the
  buckets that are not due stay on the queue; and if the queue is sorted by deadline, no
  drained event has a deadline after that of its successor. \<^verbatim>\<open>equeue_enqueue\<close> of an event
  that is not on the queue returns and makes it the head of the bucket with its deadline,
  or a new bucket at its place in the deadline order, and keeps the queue well-formed and
  sorted. Cancelling does not keep the queue well-formed, as the last run of this section
  shows.
\<close>

theorem dequeue_fifo:
  assumes B: "buckets (buffer q) (queue q) bs"
  shows "(\<exists>q' head dl. equeue_dequeue q now d0 = Some (q', head, dl) \<and>
        next_chain (buffer q') head (concat (map rev (takeWhile (due (buffer q) now) bs))) \<and>
        buckets (buffer q') (queue q') (dropWhile (due (buffer q) now) bs) \<and>
        (queue_sorted (buffer q) bs \<longrightarrow>
           deadline_order (buffer q') (concat (map rev (takeWhile (due (buffer q) now) bs))))) \<and>
     (\<forall>e ms. e \<notin> set (concat bs) \<longrightarrow>
        (\<exists>q'. equeue_enqueue q e now ms = Some q' \<and>
           buckets (buffer q') (queue q') (ins_bucket (buffer q) e (now + ms) bs) \<and>
           target (buffer q' e) = now + ms \<and>
           (\<forall>a. a \<noteq> e \<longrightarrow> target (buffer q' a) = target (buffer q a)) \<and>
           (queue_sorted (buffer q) bs \<longrightarrow>
              queue_sorted (buffer q') (ins_bucket (buffer q) e (now + ms) bs))))"
proof (intro conjI allI impI)
  have ne: "[] \<notin> set bs"
    using B bucket_path_nonempty [of "buffer q" "queue q" bs None] by (simp add: buckets_def)
  from dequeue_correct [OF B, of now d0] obtain q' head dl where
    1: "equeue_dequeue q now d0 = Some (q', head, dl)"
    and 2: "next_chain (buffer q') head (concat (map rev (takeWhile (due (buffer q) now) bs)))"
    and 3: "buckets (buffer q') (queue q') (dropWhile (due (buffer q) now) bs)"
    and t: "\<forall>a. target (buffer q' a) = target (buffer q a)" by blast
  have 4: "queue_sorted (buffer q) bs \<longrightarrow>
      deadline_order (buffer q') (concat (map rev (takeWhile (due (buffer q) now) bs)))"
  proof
    assume "queue_sorted (buffer q) bs"
    then have "queue_sorted (buffer q) (takeWhile (due (buffer q) now) bs)"
      by (rule queue_sorted_takeWhile)
    moreover have "[] \<notin> set (takeWhile (due (buffer q) now) bs)"
      using ne by (meson set_takeWhileD)
    ultimately have "deadline_order (buffer q) (concat (map rev (takeWhile (due (buffer q) now) bs)))"
      by (rule drained_in_order)
    then show "deadline_order (buffer q') (concat (map rev (takeWhile (due (buffer q) now) bs)))"
      using t by (simp add: deadline_order_cong [of "buffer q'" "buffer q"])
  qed
  show "\<exists>q' head dl. equeue_dequeue q now d0 = Some (q', head, dl) \<and>
        next_chain (buffer q') head (concat (map rev (takeWhile (due (buffer q) now) bs))) \<and>
        buckets (buffer q') (queue q') (dropWhile (due (buffer q) now) bs) \<and>
        (queue_sorted (buffer q) bs \<longrightarrow>
           deadline_order (buffer q') (concat (map rev (takeWhile (due (buffer q) now) bs))))"
    by (intro exI [of _ q'] exI [of _ head] exI [of _ dl] conjI 1 2 3 4)
next
  fix e ms assume e: "e \<notin> set (concat bs)"
  have ne: "[] \<notin> set bs"
    using B bucket_path_nonempty [of "buffer q" "queue q" bs None] by (simp add: buckets_def)
  from enqueue_correct [OF B e, of now ms] obtain q' where
    1: "equeue_enqueue q e now ms = Some q'"
    and 2: "buckets (buffer q') (queue q') (ins_bucket (buffer q) e (now + ms) bs)"
    and 3: "target (buffer q' e) = now + ms"
    and s: "\<forall>a. a \<noteq> e \<longrightarrow> same_data (buffer q' a) (buffer q a)" by blast
  have t: "target (buffer q' a) = target (buffer q a)" if "a \<noteq> e" for a
    using s that by (simp add: same_data_def)
  then have 4: "\<forall>a. a \<noteq> e \<longrightarrow> target (buffer q' a) = target (buffer q a)" by blast
  have 5: "queue_sorted (buffer q) bs \<longrightarrow>
      queue_sorted (buffer q') (ins_bucket (buffer q) e (now + ms) bs)"
  proof
    assume "queue_sorted (buffer q) bs"
    then show "queue_sorted (buffer q') (ins_bucket (buffer q) e (now + ms) bs)"
      using ne e 3 t by (rule ins_bucket_sorted)
  qed
  show "\<exists>q'. equeue_enqueue q e now ms = Some q' \<and>
           buckets (buffer q') (queue q') (ins_bucket (buffer q) e (now + ms) bs) \<and>
           target (buffer q' e) = now + ms \<and>
           (\<forall>a. a \<noteq> e \<longrightarrow> target (buffer q' a) = target (buffer q a)) \<and>
           (queue_sorted (buffer q) bs \<longrightarrow>
              queue_sorted (buffer q') (ins_bucket (buffer q) e (now + ms) bs))"
    by (intro exI [of _ q'] conjI 1 2 3 4 5)
qed

theorem dequeue_fifo_witness:
  "case two_posted of None \<Rightarrow> False
   | Some q \<Rightarrow>
       buckets (buffer q) (queue q) [[0], [72]] \<and> queue_sorted (buffer q) [[0], [72]] \<and>
       (\<exists>q3 q4 head dl. equeue_enqueue q 36 0 50 = Some q3 \<and>
          buckets (buffer q3) (queue q3) [[36, 0], [72]] \<and>
          equeue_dequeue q3 60 (- 1) = Some (q4, head, dl) \<and>
          next_chain (buffer q4) head [0, 36] \<and>
          buckets (buffer q4) (queue q4) [[72]] \<and>
          deadline_order (buffer q4) [0, 36])"
proof -
  have "case two_posted of None \<Rightarrow> False
     | Some q \<Rightarrow>
       buckets (buffer q) (queue q) [[0], [72]] \<and> queue_sorted (buffer q) [[0], [72]] \<and>
       ins_bucket (buffer q) 36 (0 + 50) [[0], [72]] = [[36, 0], [72]] \<and>
       target (buffer q 0) = 50 \<and> target (buffer q 72) = 100"
    by code_simp
  then obtain q where q: "two_posted = Some q"
    and B: "buckets (buffer q) (queue q) [[0], [72]]"
    and S: "queue_sorted (buffer q) [[0], [72]]"
    and I: "ins_bucket (buffer q) 36 (0 + 50) [[0], [72]] = [[36, 0], [72]]"
    and T: "target (buffer q 0) = 50" "target (buffer q 72) = 100"
    by (auto elim!: option_case_SomeE)
  have e: "36 \<notin> set (concat [[0], [72 :: addr]])" by simp
  from dequeue_fifo [OF B, of 0 0] e S obtain q3 where
    r3: "equeue_enqueue q 36 0 50 = Some q3"
    and B3: "buckets (buffer q3) (queue q3) (ins_bucket (buffer q) 36 (0 + 50) [[0], [72]])"
    and t3: "target (buffer q3 36) = 0 + 50"
    and o3: "\<forall>a. a \<noteq> 36 \<longrightarrow> target (buffer q3 a) = target (buffer q a)"
    and S3: "queue_sorted (buffer q3) (ins_bucket (buffer q) 36 (0 + 50) [[0], [72]])"
    by blast
  have B3': "buckets (buffer q3) (queue q3) [[36, 0], [72]]" using B3 by (simp only: I)
  have S3': "queue_sorted (buffer q3) [[36, 0], [72]]" using S3 by (simp only: I)
  have t36: "target (buffer q3 36) = 50" using t3 by simp
  have t72: "target (buffer q3 72) = 100" using o3 T by simp
  have d1: "\<not> 0 <s equeue_tickdiff (50 :: 32 word) 60" by code_simp
  have d2: "0 <s equeue_tickdiff (100 :: 32 word) 60" by code_simp
  have tw: "takeWhile (due (buffer q3) 60) [[36, 0], [72]] = [[36, 0]]"
    and dw: "dropWhile (due (buffer q3) 60) [[36, 0], [72]] = [[72]]"
    using d1 d2 by (simp_all add: due_def t36 t72)
  from dequeue_fifo [OF B3', of 60 "- 1"] S3' obtain q4 head dl where
    r4: "equeue_dequeue q3 60 (- 1) = Some (q4, head, dl)"
    and c4: "next_chain (buffer q4) head
        (concat (map rev (takeWhile (due (buffer q3) 60) [[36, 0], [72]])))"
    and B4: "buckets (buffer q4) (queue q4) (dropWhile (due (buffer q3) 60) [[36, 0], [72]])"
    and O4: "deadline_order (buffer q4)
        (concat (map rev (takeWhile (due (buffer q3) 60) [[36, 0], [72]])))"
    by blast
  have c4': "next_chain (buffer q4) head [0, 36]" using c4 unfolding tw by simp
  have B4': "buckets (buffer q4) (queue q4) [[72]]" using B4 unfolding dw .
  have O4': "deadline_order (buffer q4) [0, 36]" using O4 unfolding tw by simp
  have "\<exists>q3 q4 head dl. equeue_enqueue q 36 0 50 = Some q3 \<and>
          buckets (buffer q3) (queue q3) [[36, 0], [72]] \<and>
          equeue_dequeue q3 60 (- 1) = Some (q4, head, dl) \<and>
          next_chain (buffer q4) head [0, 36] \<and>
          buckets (buffer q4) (queue q4) [[72]] \<and>
          deadline_order (buffer q4) [0, 36]"
    by (intro exI [of _ q3] exI [of _ q4] exI [of _ head] exI [of _ dl] conjI r3 B3' r4 c4' B4' O4')
  then show ?thesis unfolding q using B S by simp
qed

text \<open>
  C4: in the run \<open>three_posted\<close> the queue is well-formed and sorted: the bucket of \<open>b\<close>
  (offset 36) and \<open>a\<close> (offset 0) with deadline 50, then the bucket of \<open>c\<close> (offset 72)
  with deadline 100. Cancelling \<open>a\<close> unqueues it through the \<open>next\<close> it kept from the time
  it was a bucket head, which makes \<open>c\<close> the sibling of \<open>b\<close> while it still is its
  \<open>next\<close>. \<^verbatim>\<open>equeue_dequeue\<close> at tick 50, when only \<open>b\<close> is due, then drains \<open>c\<close> as a
  member of the bucket of \<open>b\<close>: the drained list is \<open>c\<close>, \<open>b\<close>, with the later deadline
  first, and \<open>c\<close> stays the head of the queue as well.
\<close>

theorem dequeue_after_cancel_out_of_order:
  "case three_posted of None \<Rightarrow> False
   | Some (q, ha, hb, hc) \<Rightarrow>
       buckets (buffer q) (queue q) [[36, 0], [72]] \<and> queue_sorted (buffer q) [[36, 0], [72]] \<and>
       (case equeue_cancel q ha of None \<Rightarrow> False
        | Some q1 \<Rightarrow>
            queue q1 = Some 36 \<and> next (buffer q1 36) = Some 72 \<and>
            sibling (buffer q1 36) = Some 72 \<and>
            target (buffer q1 36) = 50 \<and> target (buffer q1 72) = 100 \<and>
            due (buffer q1) 50 [36] \<and> \<not> due (buffer q1) 50 [72] \<and>
            (case equeue_dequeue q1 50 (- 1) of None \<Rightarrow> False
             | Some (q2, head, dl) \<Rightarrow>
                 next_chain (buffer q2) head [72, 36] \<and>
                 \<not> deadline_order (buffer q2) [72, 36] \<and>
                 queue q2 = Some 72 \<and> dl = 50))"
  by code_simp

section \<open>Allocation policy\<close>

text \<open>
  C5 as stated fails for requests so large that adding the header wraps around
  \<^verbatim>\<open>size_t\<close>: with a 36-byte header a request for 4294967295 bytes is rounded "up" to 36
  bytes, and a fresh 128-byte queue serves it with a 36-byte chunk cut from the slab.
\<close>

theorem alloc_size_wraps:
  "mem_size 36 4294967295 = 36 \<and>
   (case equeue_mem_alloc 36 fresh_queue 4294967295 of None \<Rightarrow> False
    | Some (q', e) \<Rightarrow> e = Some 0 \<and> size_ev (buffer q' 0) = 36 \<and> slab_size q' = 92)"
  by code_simp

text \<open>
  C5, amended: when the requested size plus the header plus 3 fits in \<^verbatim>\<open>size_t\<close>, the
  rounded size \<open>mem_size hdr sz\<close> is the least multiple of 4 that holds the request and the
  header. On a well-formed free list \<^verbatim>\<open>equeue_mem_alloc\<close> returns the head of the first bucket
  whose size is at least the rounded size, the rest of that bucket taking its place in
  the chain and the slab staying as it is; if no bucket fits and the slab has at least the
  rounded size, it returns the start of the slab with \<open>size\<close> set to the rounded size
  and \<open>id\<close> to 1, the slab cursor advanced by that size; otherwise it returns null and
  changes nothing.
\<close>

theorem mem_alloc_policy:
  assumes B: "buckets (buffer q) (chunks q) cs"
  shows "(unat sz + unat hdr + 3 < 2 ^ 32 \<longrightarrow>
        unat (mem_size hdr sz) = (unat sz + unat hdr + 3) div 4 * 4) \<and>
     (case List.find (fits (buffer q) (mem_size hdr sz)) cs of
        Some b \<Rightarrow>
          (\<exists>q'. equeue_mem_alloc hdr q sz = Some (q', Some (hd b)) \<and>
             buckets (buffer q') (chunks q') (take_fit (buffer q) (mem_size hdr sz) cs) \<and>
             slab_size q' = slab_size q \<and> slab_data q' = slab_data q \<and>
             (\<forall>a. same_data (buffer q' a) (buffer q a)))
      | None \<Rightarrow>
          if mem_size hdr sz \<le> slab_size q
          then (\<exists>q'. equeue_mem_alloc hdr q sz = Some (q', Some (slab_data q)) \<and>
             size_ev (buffer q' (slab_data q)) = mem_size hdr sz \<and>
             id_ev (buffer q' (slab_data q)) = 1 \<and>
             slab_data q' = slab_data q + unat (mem_size hdr sz) \<and>
             slab_size q' = slab_size q - mem_size hdr sz \<and>
             chunks q' = chunks q \<and>
             (\<forall>a. a \<noteq> slab_data q \<longrightarrow> buffer q' a = buffer q a))
          else equeue_mem_alloc hdr q sz = Some (q, None))"
proof (rule conjI)
  show "unat sz + unat hdr + 3 < 2 ^ 32 \<longrightarrow>
        unat (mem_size hdr sz) = (unat sz + unat hdr + 3) div 4 * 4"
    by (rule impI) (rule mem_size_round)
next
  let ?r = "mem_size hdr sz"
  note w = mem_alloc_walk_correct [OF B, of ?r]
  show "case List.find (fits (buffer q) ?r) cs of
        Some b \<Rightarrow>
          (\<exists>q'. equeue_mem_alloc hdr q sz = Some (q', Some (hd b)) \<and>
             buckets (buffer q') (chunks q') (take_fit (buffer q) ?r cs) \<and>
             slab_size q' = slab_size q \<and> slab_data q' = slab_data q \<and>
             (\<forall>a. same_data (buffer q' a) (buffer q a)))
      | None \<Rightarrow>
          if ?r \<le> slab_size q
          then (\<exists>q'. equeue_mem_alloc hdr q sz = Some (q', Some (slab_data q)) \<and>
             size_ev (buffer q' (slab_data q)) = ?r \<and>
             id_ev (buffer q' (slab_data q)) = 1 \<and>
             slab_data q' = slab_data q + unat ?r \<and>
             slab_size q' = slab_size q - ?r \<and>
             chunks q' = chunks q \<and>
             (\<forall>a. a \<noteq> slab_data q \<longrightarrow> buffer q' a = buffer q a))
          else equeue_mem_alloc hdr q sz = Some (q, None)"
  proof (cases "List.find (fits (buffer q) ?r) cs")
    case None
    then have m: "mem_alloc_walk q ?r ChunksSlot = Some (q, None)" using w by simp
    show ?thesis
    proof (cases "?r \<le> slab_size q")
      case True
      let ?q' = "upd (slab_data q) (\<lambda>x. x\<lparr>size_ev := ?r, id_ev := 1\<rparr>)
          (q\<lparr>slab_data := slab_data q + unat ?r, slab_size := slab_size q - ?r\<rparr>)"
      have 1: "equeue_mem_alloc hdr q sz = Some (?q', Some (slab_data q))"
        using m True by (simp add: equeue_mem_alloc_def Let_def)
      have "\<exists>q'. equeue_mem_alloc hdr q sz = Some (q', Some (slab_data q)) \<and>
             size_ev (buffer q' (slab_data q)) = ?r \<and>
             id_ev (buffer q' (slab_data q)) = 1 \<and>
             slab_data q' = slab_data q + unat ?r \<and>
             slab_size q' = slab_size q - ?r \<and>
             chunks q' = chunks q \<and>
             (\<forall>a. a \<noteq> slab_data q \<longrightarrow> buffer q' a = buffer q a)"
        by (rule exI [of _ ?q']) (simp add: 1)
      then show ?thesis using None True by simp
    next
      case False
      then have "equeue_mem_alloc hdr q sz = Some (q, None)"
        using m by (simp add: equeue_mem_alloc_def Let_def)
      then show ?thesis using None False by simp
    qed
  next
    case (Some b)
    with w obtain q' where
      m: "mem_alloc_walk q ?r ChunksSlot = Some (q', Some (hd b))"
      and 2: "buckets (buffer q') (chunks q') (take_fit (buffer q) ?r cs)"
      and 3: "slab_size q' = slab_size q" and 4: "slab_data q' = slab_data q"
      and s: "\<forall>a. same_data (buffer q' a) (buffer q a) \<and> ref (buffer q' a) = ref (buffer q a) \<and>
                sibling (buffer q' a) = sibling (buffer q a)"
      by auto
    have 1: "equeue_mem_alloc hdr q sz = Some (q', Some (hd b))"
      using m by (simp add: equeue_mem_alloc_def Let_def)
    have 5: "\<forall>a. same_data (buffer q' a) (buffer q a)" using s by blast
    have "\<exists>q'. equeue_mem_alloc hdr q sz = Some (q', Some (hd b)) \<and>
             buckets (buffer q') (chunks q') (take_fit (buffer q) ?r cs) \<and>
             slab_size q' = slab_size q \<and> slab_data q' = slab_data q \<and>
             (\<forall>a. same_data (buffer q' a) (buffer q a))"
      by (intro exI [of _ q'] conjI 1 2 3 4 5)
    then show ?thesis using Some by simp
  qed
qed

theorem mem_alloc_policy_witness:
  "case two_freed of None \<Rightarrow> False
   | Some q \<Rightarrow>
       buckets (buffer q) (chunks q) [[36, 0]] \<and> unat (mem_size 36 0) = 36 \<and>
       (\<exists>q'. equeue_mem_alloc 36 q 0 = Some (q', Some 36) \<and>
          buckets (buffer q') (chunks q') [[0]] \<and> slab_size q' = slab_size q)"
proof -
  have "case two_freed of None \<Rightarrow> False
     | Some q \<Rightarrow>
       buckets (buffer q) (chunks q) [[36, 0]] \<and>
       List.find (fits (buffer q) (mem_size 36 0)) [[36, 0]] = Some [36, 0] \<and>
       take_fit (buffer q) (mem_size 36 0) [[36, 0]] = [[0]]"
    by code_simp
  then obtain q where q: "two_freed = Some q"
    and B: "buckets (buffer q) (chunks q) [[36, 0]]"
    and F: "List.find (fits (buffer q) (mem_size 36 0)) [[36, 0]] = Some [36, 0]"
    and T: "take_fit (buffer q) (mem_size 36 0) [[36, 0]] = [[0]]"
    by (auto elim!: option_case_SomeE)
  have n: "unat (0 :: 32 word) + unat (36 :: 32 word) + 3 < 2 ^ 32" by simp
  from mem_alloc_policy [OF B, of 0 36] have
    r: "unat (mem_size 36 0) = (unat (0 :: 32 word) + unat (36 :: 32 word) + 3) div 4 * 4"
    and a: "\<exists>q'. equeue_mem_alloc 36 q 0 = Some (q', Some (hd [36, 0])) \<and>
             buckets (buffer q') (chunks q') (take_fit (buffer q) (mem_size 36 0) [[36, 0]]) \<and>
             slab_size q' = slab_size q \<and> slab_data q' = slab_data q \<and>
             (\<forall>a. same_data (buffer q' a) (buffer q a))"
    using n by (simp_all only: F option.case)
  from a obtain q' where 1: "equeue_mem_alloc 36 q 0 = Some (q', Some 36)"
    and 2: "buckets (buffer q') (chunks q') [[0]]" and 3: "slab_size q' = slab_size q"
    unfolding T by auto
  have 0: "unat (mem_size 36 0) = 36" using r by simp
  have "\<exists>q'. equeue_mem_alloc 36 q 0 = Some (q', Some 36) \<and>
          buckets (buffer q') (chunks q') [[0]] \<and> slab_size q' = slab_size q"
    by (intro exI [of _ q'] conjI 1 2 3)
  then show ?thesis unfolding q using B 0 by simp
qed

end
